theory Spec2Isabelle
  imports Complex_Main
begin

section \<open>Values, faults and vectors\<close>

text \<open>
  The scheduler of \<^verbatim>\<open>stable_diffusion.hpp\<close> computes on \<^verbatim>\<open>float\<close> and \<^verbatim>\<open>double\<close>.
  A finite floating-point value is modelled by the real number it stands for. Most
  definitions below leave out rounding, overflow and underflow: a theorem about them
  is a theorem of the scheduler in exact arithmetic. Where the rounding decides a
  statement, the lines concerned are modelled a second time with the rounding as a
  parameter (the definitions whose names end in \<open>rounded\<close>), and \<open>float32\<close> is the
  arithmetic the program runs in.

  What IEEE arithmetic does outside the finite numbers is not left out. HOL's own
  \<open>x / 0 = 0\<close>, \<open>ln 0 = 0\<close> and \<open>sqrt\<close> of a negative number are not what the program
  computes, so every division, logarithm and square root of the source whose operand
  can leave the domain is guarded in the model:
  \<^item> \<open>Non_finite\<close>: an operation of the source produced an infinity or a NaN (a division
    by zero, the logarithm of zero, the square root of a negative number). The program
    itself does not stop there; the model does, and says so. The one place where the
    source clamps such a value back into the finite numbers, the interpolation weight
    of \<^verbatim>\<open>sigma_to_timestemp\<close>, is followed through instead.
  \<^item> \<open>Out_of_bounds\<close>: a \<^verbatim>\<open>std::vector\<close> or a tensor buffer was read or written outside
    its range, which is undefined behaviour in C++.
  \<^item> \<open>Alloc_failure\<close>: a vector of more than \<^verbatim>\<open>max_size()\<close> elements was requested.
  \<^item> \<open>Undefined_shift\<close>: an \<^verbatim>\<open>int\<close> was shifted by its width or more.
  \<^item> \<open>Indeterminate\<close>: a buffer element that was never written is handed on.
  \<^item> \<open>Infer_failure\<close>: the inference request of the network threw.
  A result \<open>Inr v\<close> therefore means: the run stays within the finite numbers and within
  every buffer, and returns \<open>v\<close>.
\<close>

datatype error =
  Out_of_bounds | Non_finite | Alloc_failure | Undefined_shift | Indeterminate | Infer_failure

text \<open>\<open>xs[i]\<close> on a \<^verbatim>\<open>std::vector\<close>, with a signed index as the source has it.\<close>

definition vec_at :: "'a list \<Rightarrow> int \<Rightarrow> error + 'a" where
  "vec_at xs i = (if 0 \<le> i \<and> i < int (length xs) then Inr (xs ! nat i) else Inl Out_of_bounds)"

text \<open>
  A loop that pushes one value per iteration into a vector: the run of the iterations
  in order, stopped by the first fault.
\<close>

primrec collect :: "(error + 'a) list \<Rightarrow> error + 'a list" where
  "collect [] = Inr []"
| "collect (m # ms) =
     (case m of
        Inl e \<Rightarrow> Inl e
      | Inr v \<Rightarrow> (case collect ms of Inl e \<Rightarrow> Inl e | Inr vs \<Rightarrow> Inr (v # vs)))"

section \<open>The log-sigma table: \<^verbatim>\<open>linspace\<close> and \<^verbatim>\<open>LMSDiscreteScheduler\<close>\<close>

text \<open>
  \<^verbatim>\<open>linspace(a, b, N)\<close>: \<^verbatim>\<open>h = (b - a) / (N - 1)\<close>, then \<^verbatim>\<open>N\<close> values starting at \<^verbatim>\<open>a\<close>,
  each the previous one plus \<^verbatim>\<open>h\<close>. For \<^verbatim>\<open>N = 1\<close> the step \<^verbatim>\<open>h\<close> is not finite, but it
  is added to \<^verbatim>\<open>val\<close> only after the single element has been stored, so the result is
  \<^verbatim>\<open>[a]\<close>; for \<^verbatim>\<open>N = 0\<close> nothing is stored.
\<close>

primrec linspace_fill :: "real \<Rightarrow> real \<Rightarrow> nat \<Rightarrow> real list" where
  "linspace_fill val h 0 = []"
| "linspace_fill val h (Suc n) = val # linspace_fill (val + h) h n"

definition linspace :: "real \<Rightarrow> real \<Rightarrow> nat \<Rightarrow> real list" where
  "linspace a b N = linspace_fill a ((b - a) / real (N - 1)) N"

text \<open>
  The table builder, first in exact arithmetic: every \<^verbatim>\<open>float\<close> is the real number it
  stands for and no operation rounds. The same lines with the rounding of \<^verbatim>\<open>float\<close>
  follow in the next section.

  The beta sequence (lines 81 to 98). The first branch is
  \<^verbatim>\<open>if (!trained_betas.empty()) { auto betas = trained_betas; }\<close>: the \<^verbatim>\<open>auto\<close> declares
  a new variable local to the block, and the \<^verbatim>\<open>betas\<close> of the function stays empty.
  The last branch prints a message and goes on. The first component is what is written
  to \<^verbatim>\<open>std::cout\<close>.
\<close>

definition schedule_betas ::
  "int \<Rightarrow> real \<Rightarrow> real \<Rightarrow> string \<Rightarrow> real list \<Rightarrow> string list \<times> (error + real list)"
where
  "schedule_betas num_train_timesteps beta_start beta_end beta_schedule trained_betas =
     (if trained_betas \<noteq> [] then ([], Inr [])
      else if beta_schedule = ''linear'' then
        ([], if num_train_timesteps = 1 then Inl Non_finite
             else Inr (map (\<lambda>i. beta_start + (beta_end - beta_start) * real i
                                   / real_of_int (num_train_timesteps - 1))
                         [0 ..< nat num_train_timesteps]))
      else if beta_schedule = ''scaled_linear'' then
        ([], if beta_start < 0 \<or> beta_end < 0 then Inl Non_finite
             else if num_train_timesteps < 0 then Inl Alloc_failure
             else Inr (map (\<lambda>b. b * b)
                         (linspace (sqrt beta_start) (sqrt beta_end) (nat num_train_timesteps))))
      else (['' beta_schedule must be one of 'linear' or 'scaled_linear' ''], Inr []))"

text \<open>
  One table entry (lines 104 to 107): the product of the first \<open>i\<close> alphas, accumulated
  from the left starting at 1, then \<^verbatim>\<open>sqrt((1 - c) / c)\<close> and its logarithm.
\<close>

definition alphas_cumprod :: "real list \<Rightarrow> nat \<Rightarrow> real" where
  "alphas_cumprod alphas i = foldl (*) 1 (take i alphas)"

definition log_sigma_entry :: "real list \<Rightarrow> nat \<Rightarrow> error + real" where
  "log_sigma_entry alphas i =
     (let c = alphas_cumprod alphas i in
      if c = 0 \<or> (1 - c) / c \<le> 0 then Inl Non_finite
      else Inr (ln (sqrt ((1 - c) / c))))"

definition LMSDiscreteScheduler ::
  "int \<Rightarrow> real \<Rightarrow> real \<Rightarrow> string \<Rightarrow> string \<Rightarrow> real list \<Rightarrow> string list \<times> (error + real list)"
where
  "LMSDiscreteScheduler num_train_timesteps beta_start beta_end beta_schedule
       prediction_type trained_betas =
     (case schedule_betas num_train_timesteps beta_start beta_end beta_schedule trained_betas of
        (out, Inl e) \<Rightarrow> (out, Inl e)
      | (out, Inr betas) \<Rightarrow>
          (let alphas = map (\<lambda>b. 1 - b) betas
           in (out, collect (map (log_sigma_entry alphas) [1 ..< Suc (length alphas)]))))"

text \<open>The call \<^verbatim>\<open>LMSDiscreteScheduler()\<close> of \<^verbatim>\<open>diffusion_function\<close>: every default argument.\<close>

definition default_log_sigma_vec :: "string list \<times> (error + real list)" where
  "default_log_sigma_vec =
     LMSDiscreteScheduler 1000 (85 / 100000) (12 / 1000) ''scaled_linear'' ''epsilon'' []"

section \<open>The table builder in \<^verbatim>\<open>float\<close> arithmetic\<close>

text \<open>
  \<open>LMSDiscreteScheduler\<close> above is the table builder in exact arithmetic. The program
  computes in \<^verbatim>\<open>float\<close>: every operation of lines 81 to 108 rounds its result to the
  nearest number of 24 significant bits, and may produce an infinity or a NaN that the
  program carries on with. This section is the same lines again with both made
  explicit: a value is a real number, an infinity or a NaN, and every operation takes
  the rounding of its result as a parameter, \<open>float32\<close> for the program as it runs and
  \<open>exact\<close> for no rounding at all.
\<close>

datatype fvalue = Number real | Pos_infinity | Neg_infinity | NaN_value

type_synonym rounding = "real \<Rightarrow> fvalue"

definition exact :: rounding where
  "exact x = Number x"

text \<open>
  IEEE 754 binary32, rounding to nearest, ties to even: 24 significant bits, the
  exponent of a normal number between \<open>-126\<close> and \<open>127\<close>, below that the subnormal
  numbers with the spacing \<open>2^-149\<close>, above that an infinity. A zero has no sign here:
  it behaves as \<open>+0\<close>.
\<close>

definition pow2 :: "int \<Rightarrow> real" where
  "pow2 k = (if 0 \<le> k then 2 ^ nat k else 1 / 2 ^ nat (- k))"

definition nearest_even :: "real \<Rightarrow> int" where
  "nearest_even q =
     (let f = \<lfloor>q\<rfloor>; d = q - of_int f
      in if d < 1 / 2 then f else if 1 / 2 < d then f + 1 else if even f then f else f + 1)"

definition float32 :: rounding where
  "float32 x =
     (if x = 0 then Number 0
      else
        (let e = max \<lfloor>log 2 \<bar>x\<bar>\<rfloor> (- 126);
             ulp = pow2 (e - 23);
             r = of_int (nearest_even (x / ulp)) * ulp
         in if 2 ^ 128 \<le> \<bar>r\<bar> then (if 0 < x then Pos_infinity else Neg_infinity)
            else Number r))"

text \<open>The infinity of the sign of \<open>x\<close>; a NaN for no sign.\<close>

definition infinity_like :: "real \<Rightarrow> fvalue" where
  "infinity_like x =
     (if 0 < x then Pos_infinity else if x < 0 then Neg_infinity else NaN_value)"

fun fsign :: "fvalue \<Rightarrow> real" where
  "fsign (Number x) = sgn x"
| "fsign Pos_infinity = 1"
| "fsign Neg_infinity = - 1"
| "fsign NaN_value = 0"

fun fnegate :: "fvalue \<Rightarrow> fvalue" where
  "fnegate (Number x) = Number (- x)"
| "fnegate Pos_infinity = Neg_infinity"
| "fnegate Neg_infinity = Pos_infinity"
| "fnegate NaN_value = NaN_value"

fun fadd :: "rounding \<Rightarrow> fvalue \<Rightarrow> fvalue \<Rightarrow> fvalue" where
  "fadd rnd (Number x) (Number y) = rnd (x + y)"
| "fadd rnd NaN_value y = NaN_value"
| "fadd rnd x NaN_value = NaN_value"
| "fadd rnd Pos_infinity Neg_infinity = NaN_value"
| "fadd rnd Neg_infinity Pos_infinity = NaN_value"
| "fadd rnd Pos_infinity y = Pos_infinity"
| "fadd rnd x Pos_infinity = Pos_infinity"
| "fadd rnd Neg_infinity y = Neg_infinity"
| "fadd rnd x Neg_infinity = Neg_infinity"


fun fmul :: "rounding \<Rightarrow> fvalue \<Rightarrow> fvalue \<Rightarrow> fvalue" where
  "fmul rnd (Number x) (Number y) = rnd (x * y)"
| "fmul rnd NaN_value y = NaN_value"
| "fmul rnd x NaN_value = NaN_value"
| "fmul rnd x y = infinity_like (fsign x * fsign y)"

fun fdiv :: "rounding \<Rightarrow> fvalue \<Rightarrow> fvalue \<Rightarrow> fvalue" where
  "fdiv rnd (Number x) (Number y) = (if y = 0 then infinity_like x else rnd (x / y))"
| "fdiv rnd NaN_value y = NaN_value"
| "fdiv rnd x NaN_value = NaN_value"
| "fdiv rnd (Number x) y = Number 0"
| "fdiv rnd x (Number y) = (if y < 0 then fnegate x else x)"
| "fdiv rnd x y = NaN_value"










section \<open>The run schedule (lines 272 to 283 of \<^verbatim>\<open>diffusion_function\<close>)\<close>

text \<open>
  \<^verbatim>\<open>float delta = -999.0f / (steps - 1)\<close>, with \<^verbatim>\<open>steps\<close> a 64-bit \<^verbatim>\<open>size_t\<close>: the
  subtraction wraps for \<^verbatim>\<open>steps = 0\<close>, and for \<^verbatim>\<open>steps = 1\<close> the divisor is zero and the
  quotient is minus infinity (\<open>None\<close>: not a finite number).
\<close>

definition schedule_delta :: "nat \<Rightarrow> real option" where
  "schedule_delta steps =
     (if steps = 1 then None
      else Some (- 999 / real ((steps + 2 ^ 64 - 1) mod 2 ^ 64)))"

text \<open>
  One iteration of the loop of lines 276 to 282. With a \<^verbatim>\<open>delta\<close> that is not finite,
  \<^verbatim>\<open>t = 999.0 + i * delta\<close> is a NaN (for \<^verbatim>\<open>i = 0\<close>) or minus infinity, and its conversion to
  \<^verbatim>\<open>int32_t\<close> is undefined.
\<close>

definition t_to_sigma :: "real list \<Rightarrow> real option \<Rightarrow> nat \<Rightarrow> error + real" where
  "t_to_sigma log_sigma_vec delta i =
     (case delta of
        None \<Rightarrow> Inl Non_finite
      | Some d \<Rightarrow>
          (let t = 999 + real i * d;
               low_idx = \<lfloor>t\<rfloor>;
               high_idx = \<lceil>t\<rceil>;
               w = t - of_int low_idx
           in case vec_at log_sigma_vec low_idx of
                Inl e \<Rightarrow> Inl e
              | Inr lo \<Rightarrow>
                  (case vec_at log_sigma_vec high_idx of
                     Inl e \<Rightarrow> Inl e
                   | Inr hi \<Rightarrow> Inr (exp ((1 - w) * lo + w * hi)))))"

definition run_schedule :: "real list \<Rightarrow> nat \<Rightarrow> error + real list" where
  "run_schedule log_sigma_vec steps =
     (case collect (map (t_to_sigma log_sigma_vec (schedule_delta steps)) [0 ..< steps]) of
        Inl e \<Rightarrow> Inl e
      | Inr sigma \<Rightarrow> Inr (sigma @ [0]))"

text \<open>
  \<open>t_to_sigma\<close> computes the time \<open>t\<close> exactly. In the program \<^verbatim>\<open>delta\<close> is the \<^verbatim>\<open>float\<close>
  quotient of \<^verbatim>\<open>-999.0f\<close> and \<^verbatim>\<open>steps - 1\<close> converted to \<^verbatim>\<open>float\<close>; \<^verbatim>\<open>i * delta\<close> is the
  \<^verbatim>\<open>float\<close> product of \<open>i\<close> converted to \<^verbatim>\<open>float\<close> and \<^verbatim>\<open>delta\<close>; its sum with the \<^verbatim>\<open>double\<close>
  \<^verbatim>\<open>999.0\<close> is stored in the \<^verbatim>\<open>float t\<close>. The same two lines with the rounding as a
  parameter (the sum is rounded once, to \<^verbatim>\<open>float\<close>), and the read \<^verbatim>\<open>log_sigma_vec[low_idx]\<close>
  of line 281 at \<^verbatim>\<open>low_idx = std::floor(t)\<close>.
\<close>

definition schedule_delta_rounded :: "rounding \<Rightarrow> nat \<Rightarrow> fvalue" where
  "schedule_delta_rounded rnd steps =
     fdiv rnd (Number (- 999)) (rnd (real ((steps + 2 ^ 64 - 1) mod 2 ^ 64)))"

definition schedule_time_rounded :: "rounding \<Rightarrow> nat \<Rightarrow> nat \<Rightarrow> fvalue" where
  "schedule_time_rounded rnd steps i =
     fadd rnd (Number 999) (fmul rnd (rnd (real i)) (schedule_delta_rounded rnd steps))"

definition read_low_idx :: "real list \<Rightarrow> fvalue \<Rightarrow> error + real" where
  "read_low_idx log_sigma_vec t =
     (case t of Number x \<Rightarrow> vec_at log_sigma_vec \<lfloor>x\<rfloor> | _ \<Rightarrow> Inl Non_finite)"

section \<open>\<^verbatim>\<open>sigma_to_timestemp\<close>\<close>

text \<open>
  \<^verbatim>\<open>double log_sigma = std::log(sigma)\<close>: finite for a positive \<^verbatim>\<open>sigma\<close>, minus infinity
  for zero, a NaN for a negative one.
\<close>

datatype log_value = Finite real | Minus_infinity | Not_a_number

definition log_of :: "real \<Rightarrow> log_value" where
  "log_of x = (if 0 < x then Finite (ln x) else if x = 0 then Minus_infinity else Not_a_number)"

text \<open>The test \<^verbatim>\<open>log_sigma - log_sigmas[i] >= 0\<close>: false for minus infinity and for a NaN.\<close>

definition dist_indicator :: "log_value \<Rightarrow> real \<Rightarrow> real" where
  "dist_indicator log_sigma x =
     (case log_sigma of Finite l \<Rightarrow> (if l - x \<ge> 0 then 1 else 0) | _ \<Rightarrow> 0)"

text \<open>\<^verbatim>\<open>dists[i] += dists[i - 1]\<close>, from the left.\<close>

primrec dists_fill :: "real \<Rightarrow> real list \<Rightarrow> real list" where
  "dists_fill prev [] = []"
| "dists_fill prev (d # ds) = (prev + d) # dists_fill (prev + d) ds"

text \<open>\<^verbatim>\<open>std::max_element\<close>: the position of the first greatest element.\<close>

primrec max_element_from :: "nat \<Rightarrow> real \<Rightarrow> nat \<Rightarrow> real list \<Rightarrow> nat" where
  "max_element_from best largest i [] = best"
| "max_element_from best largest i (x # xs) =
     (if largest < x then max_element_from i x (Suc i) xs
      else max_element_from best largest (Suc i) xs)"

definition max_element :: "real list \<Rightarrow> nat" where
  "max_element xs = (case xs of [] \<Rightarrow> 0 | x # xs' \<Rightarrow> max_element_from 0 x 1 xs')"

text \<open>
  \<^verbatim>\<open>w = (low - log_sigma) / (low - high); w = std::max(0.0, std::min(1.0, w))\<close>.
  The quotient may be infinite or a NaN; \<^verbatim>\<open>std::min(1.0, w)\<close> is \<^verbatim>\<open>w < 1.0 ? w : 1.0\<close>
  and \<^verbatim>\<open>std::max(0.0, w)\<close> is \<^verbatim>\<open>0.0 < w ? w : 0.0\<close>, so plus infinity and NaN
  become 1 and minus infinity becomes 0. \<^verbatim>\<open>low - high\<close> is a \<^verbatim>\<open>float\<close> difference,
  \<open>+0\<close> when the two are equal.
\<close>

definition clamped_weight :: "real \<Rightarrow> real \<Rightarrow> log_value \<Rightarrow> real" where
  "clamped_weight low high log_sigma =
     (case log_sigma of
        Finite l \<Rightarrow>
          (if low - high \<noteq> 0 then max 0 (min 1 ((low - l) / (low - high)))
           else if low - l < 0 then 0 else 1)
      | Minus_infinity \<Rightarrow> (if low - high < 0 then 0 else 1)
      | Not_a_number \<Rightarrow> 1)"

text \<open>\<^verbatim>\<open>std::llround\<close>: to the nearest integer, halves away from zero.\<close>

definition llround :: "real \<Rightarrow> int" where
  "llround x = (if 0 \<le> x then \<lfloor>x + 1 / 2\<rfloor> else - \<lfloor>- x + 1 / 2\<rfloor>)"

definition sigma_to_timestemp :: "real list \<Rightarrow> real \<Rightarrow> error + int" where
  "sigma_to_timestemp log_sigmas sigma =
     (let log_sigma = log_of sigma
      in case collect (map (\<lambda>i. vec_at log_sigmas (int i)) [0 ..< 1000]) of
           Inl e \<Rightarrow> Inl e
         | Inr vals \<Rightarrow>
             (let dists = dists_fill 0 (map (dist_indicator log_sigma) vals);
                  low_idx = min (int (max_element dists)) (1000 - 2);
                  high_idx = low_idx + 1
              in case vec_at log_sigmas low_idx of
                   Inl e \<Rightarrow> Inl e
                 | Inr low \<Rightarrow>
                     (case vec_at log_sigmas high_idx of
                        Inl e \<Rightarrow> Inl e
                      | Inr high \<Rightarrow>
                          (let w = clamped_weight low high log_sigma
                           in Inr (llround ((1 - w) * of_int low_idx + w * of_int high_idx))))))"

section \<open>The multistep coefficients: \<^verbatim>\<open>lms_derivative_function\<close> and \<^verbatim>\<open>trapezoidal\<close>\<close>

text \<open>
  The product over \<open>k < order\<close>, \<open>k \<noteq> curr_order\<close>, of
  \<^verbatim>\<open>(tau - sigma_vec[t - k]) / (sigma_vec[t - curr_order] - sigma_vec[t - k])\<close>.
\<close>

primrec lms_derivative_loop ::
  "real \<Rightarrow> nat \<Rightarrow> real list \<Rightarrow> nat \<Rightarrow> nat list \<Rightarrow> real \<Rightarrow> error + real"
where
  "lms_derivative_loop tau curr_order sigma_vec t [] product = Inr product"
| "lms_derivative_loop tau curr_order sigma_vec t (k # ks) product =
     (if curr_order = k then lms_derivative_loop tau curr_order sigma_vec t ks product
      else
        (case vec_at sigma_vec (int t - int k) of
           Inl e \<Rightarrow> Inl e
         | Inr s_k \<Rightarrow>
             (case vec_at sigma_vec (int t - int curr_order) of
                Inl e \<Rightarrow> Inl e
              | Inr s_c \<Rightarrow>
                  (if s_c - s_k = 0 then Inl Non_finite
                   else lms_derivative_loop tau curr_order sigma_vec t ks
                          (product * ((tau - s_k) / (s_c - s_k)))))))"

definition lms_derivative_function ::
  "real \<Rightarrow> nat \<Rightarrow> nat \<Rightarrow> real list \<Rightarrow> nat \<Rightarrow> error + real"
where
  "lms_derivative_function tau order curr_order sigma_vec t =
     lms_derivative_loop tau curr_order sigma_vec t [0 ..< order] 1"

text \<open>
  The bound \<^verbatim>\<open>1 << (k - 1)\<close> of the inner loop of \<^verbatim>\<open>trapezoidal\<close>, on a 32-bit \<^verbatim>\<open>int\<close>:
  a power of two up to \<open>2^30\<close>; the most negative \<^verbatim>\<open>int\<close> for a shift by 31, so that
  the loop \<^verbatim>\<open>j = 1; j <= ...\<close> does not run; undefined from 32 on.
\<close>

definition refinement_points :: "nat \<Rightarrow> error + nat" where
  "refinement_points k =
     (if k - 1 < 31 then Inr (2 ^ (k - 1))
      else if k - 1 = 31 then Inr 0
      else Inl Undefined_shift)"

primrec trapezoidal_sum ::
  "(real \<Rightarrow> error + real) \<Rightarrow> real \<Rightarrow> real \<Rightarrow> nat list \<Rightarrow> real \<Rightarrow> error + real"
where
  "trapezoidal_sum f a h [] acc = Inr acc"
| "trapezoidal_sum f a h (j # js) acc =
     (case f (a + (2 * real j - 1) * h) of
        Inl e \<Rightarrow> Inl e
      | Inr y \<Rightarrow> trapezoidal_sum f a h js (acc + y))"

text \<open>
  The refinement loop \<^verbatim>\<open>for (k = 1; k <= max_refinements; ++k)\<close>; the first argument
  after the tolerance counts the iterations that are left.
\<close>

primrec trapezoidal_loop ::
  "(real \<Rightarrow> error + real) \<Rightarrow> real \<Rightarrow> real \<Rightarrow> nat \<Rightarrow> nat \<Rightarrow> real \<Rightarrow> real \<Rightarrow> error + real"
where
  "trapezoidal_loop f a tol 0 k h I0 = Inr I0"
| "trapezoidal_loop f a tol (Suc left) k h I0 =
     (case refinement_points k of
        Inl e \<Rightarrow> Inl e
      | Inr n \<Rightarrow>
          (case trapezoidal_sum f a h [1 ..< Suc n] 0 of
             Inl e \<Rightarrow> Inl e
           | Inr s \<Rightarrow>
               (let I1 = (1 / 2) * I0 + h * s
                in if 1 < k \<and> \<bar>I1 - I0\<bar> < tol then Inr I1
                   else trapezoidal_loop f a tol left (Suc k) (h / 2) I1)))"

definition trapezoidal ::
  "(real \<Rightarrow> error + real) \<Rightarrow> real \<Rightarrow> real \<Rightarrow> real \<Rightarrow> nat \<Rightarrow> error + real"
where
  "trapezoidal f a b tol max_refinements =
     (let h = (b - a) / 2
      in case f a of
           Inl e \<Rightarrow> Inl e
         | Inr ya \<Rightarrow>
             (case f b of
                Inl e \<Rightarrow> Inl e
              | Inr yb \<Rightarrow> trapezoidal_loop f a tol max_refinements 1 h ((ya + yb) * h)))"

text \<open>
  Lines 330 to 339: \<^verbatim>\<open>order = std::min(i + 1, order)\<close> with \<^verbatim>\<open>order = 4\<close> before, then
  one integral over \<^verbatim>\<open>[sigma[i], sigma[i + 1]]\<close> per \<^verbatim>\<open>curr_order < order\<close>, with the
  tolerance \<^verbatim>\<open>1e-4\<close> and the default 100 refinements. The loop is written for
  any \<open>order\<close>; \<^verbatim>\<open>diffusion_function\<close> runs it with \<open>lms_order i\<close>.
\<close>

definition lms_order :: "nat \<Rightarrow> nat" where
  "lms_order i = min (i + 1) 4"

definition lms_coeff :: "real list \<Rightarrow> nat \<Rightarrow> nat \<Rightarrow> nat \<Rightarrow> error + real" where
  "lms_coeff sigma order i curr_order =
     (case vec_at sigma (int i) of
        Inl e \<Rightarrow> Inl e
      | Inr a \<Rightarrow>
          (case vec_at sigma (int i + 1) of
             Inl e \<Rightarrow> Inl e
           | Inr b \<Rightarrow>
               trapezoidal (\<lambda>tau. lms_derivative_function tau order curr_order sigma i)
                 a b (1 / 10000) 100))"

definition lms_coeffs :: "real list \<Rightarrow> nat \<Rightarrow> nat \<Rightarrow> error + real list" where
  "lms_coeffs sigma order i = collect (map (lms_coeff sigma order i) [0 ..< order])"

section \<open>Tensors and the guided noise prediction: \<^verbatim>\<open>unet_infer_function\<close>\<close>

text \<open>
  An \<^verbatim>\<open>ov::Tensor\<close> of \<^verbatim>\<open>float\<close>: its shape and the buffer its data pointer refers to.
  \<^verbatim>\<open>get_size()\<close> is the product of the shape; the buffer is read through \<open>vec_at\<close>, so a
  buffer shorter than the size is a read out of bounds.
\<close>

record tensor =
  shape :: "nat list"
  data :: "real list"

definition get_size :: "tensor \<Rightarrow> nat" where
  "get_size t = prod_list (shape t)"

text \<open>\<^verbatim>\<open>shape[0] = v\<close> on an \<^verbatim>\<open>ov::Shape\<close>, which is a vector of dimensions.\<close>

definition set_batch :: "nat list \<Rightarrow> nat \<Rightarrow> error + nat list" where
  "set_batch sh v = (case sh of [] \<Rightarrow> Inl Out_of_bounds | d # ds \<Rightarrow> Inr (v # ds))"

text \<open>
  The compiled network: from the timestep, the batched sample and the text embeddings
  to its output tensor, or a failure of the inference request.
\<close>

type_synonym unet = "int \<Rightarrow> tensor \<Rightarrow> tensor \<Rightarrow> error + tensor"

definition guidance_scale :: real where
  "guidance_scale = 75 / 10"

definition unet_infer_function :: "unet \<Rightarrow> int \<Rightarrow> tensor \<Rightarrow> tensor \<Rightarrow> error + tensor" where
  "unet_infer_function unet_model timestemp latent_input_1d text_embedding_1d =
     (case unet_model timestemp latent_input_1d text_embedding_1d of
        Inl e \<Rightarrow> Inl e
      | Inr noise_pred_tensor \<Rightarrow>
          (case set_batch (shape noise_pred_tensor) 1 of
             Inl e \<Rightarrow> Inl e
           | Inr noise_pred_shape \<Rightarrow>
               (let n = prod_list noise_pred_shape;
                    noise_pred_uncond = (\<lambda>i. vec_at (data noise_pred_tensor) (int i));
                    noise_pred_text = (\<lambda>i. vec_at (data noise_pred_tensor) (int n + int i))
                in case collect
                          (map (\<lambda>i. case noise_pred_uncond i of
                                       Inl e \<Rightarrow> Inl e
                                     | Inr u \<Rightarrow>
                                         (case noise_pred_text i of
                                            Inl e \<Rightarrow> Inl e
                                          | Inr c \<Rightarrow> Inr (u + guidance_scale * (c - u))))
                             [0 ..< n]) of
                     Inl e \<Rightarrow> Inl e
                   | Inr d \<Rightarrow> Inr \<lparr>shape = noise_pred_shape, data = d\<rparr>)))"

section \<open>The sampling loop: \<^verbatim>\<open>diffusion_function\<close>\<close>

text \<open>
  The two variables the loop of lines 300 to 374 changes: the evolving latent
  \<^verbatim>\<open>latent_vector_1d_new\<close> (its buffer) and the history \<^verbatim>\<open>derivative_list\<close>.
\<close>

record loop_state =
  latent_vector_1d_new :: "real list"
  derivative_list :: "real list list"

text \<open>
  Lines 304 to 307: the model input of shape \<^verbatim>\<open>latent_shape\<close> with the first dimension
  set to 2 is filled at \<^verbatim>\<open>j\<close> and at \<^verbatim>\<open>j + lanent_size\<close> for each \<^verbatim>\<open>j < lanent_size\<close>.
  Filling more than the tensor holds writes out of bounds; filling less leaves elements
  that were never written.
\<close>

definition latent_model_input ::
  "nat list \<Rightarrow> real list \<Rightarrow> real \<Rightarrow> error + tensor"
where
  "latent_model_input latent_model_input_shape latent_new sigma_i =
     (let scale = 1 / sqrt (sigma_i * sigma_i + 1);
          lanent_size = length latent_new;
          scaled = map (\<lambda>x. x * scale) latent_new
      in if prod_list latent_model_input_shape < 2 * lanent_size then Inl Out_of_bounds
         else if 2 * lanent_size < prod_list latent_model_input_shape then Inl Indeterminate
         else Inr \<lparr>shape = latent_model_input_shape, data = scaled @ scaled\<rparr>)"

text \<open>
  Lines 316 to 321, one element: the predicted original sample, then the derivative.
  Both are computed from \<^verbatim>\<open>latent_vector_1d\<close>, the tensor the function was called with.
\<close>

definition derivative_element :: "real \<Rightarrow> real \<Rightarrow> real \<Rightarrow> error + real" where
  "derivative_element latent_j sigma_i noise_pred_j =
     (let pred_latent = latent_j - sigma_i * noise_pred_j
      in if sigma_i = 0 then Inl Non_finite
         else Inr ((latent_j - pred_latent) / sigma_i))"

definition derivative_vec_1d :: "tensor \<Rightarrow> real \<Rightarrow> tensor \<Rightarrow> error + real list" where
  "derivative_vec_1d latent_vector_1d sigma_i noise_pred_1d =
     collect
       (map (\<lambda>j. case vec_at (data latent_vector_1d) (int j) of
                    Inl e \<Rightarrow> Inl e
                  | Inr l \<Rightarrow>
                      (case vec_at (data noise_pred_1d) (int j) of
                         Inl e \<Rightarrow> Inl e
                       | Inr p \<Rightarrow> derivative_element l sigma_i p))
          [0 ..< get_size latent_vector_1d])"

text \<open>
  Line 323, \<^verbatim>\<open>derivative_list.push_back(derivative_vec_1d)\<close>, and lines 325 to 327,
  \<^verbatim>\<open>if (order < derivative_list.size()) derivative_list.erase(derivative_list.begin())\<close>
  with \<^verbatim>\<open>order\<close> still at its initial 4: two statements, and two states of the vector.
  \<open>push_derivative\<close> is the one after the other.
\<close>

definition push_back :: "'a list \<Rightarrow> 'a \<Rightarrow> 'a list" where
  "push_back xs x = xs @ [x]"

definition keep_within :: "nat \<Rightarrow> 'a list \<Rightarrow> 'a list" where
  "keep_within order xs = (if order < length xs then tl xs else xs)"

definition push_derivative :: "real list list \<Rightarrow> real list \<Rightarrow> real list list" where
  "push_derivative derivatives d = keep_within 4 (push_back derivatives d)"

text \<open>
  Lines 344 to 352: the reversed history, its entry \<open>m\<close> scaled by \<^verbatim>\<open>lms_coeffs[m]\<close>
  for \<open>m < order\<close>.
\<close>

definition scale_derivatives ::
  "real list list \<Rightarrow> real list \<Rightarrow> nat \<Rightarrow> error + real list list"
where
  "scale_derivatives rev_derivative coeffs order =
     (case collect
             (map (\<lambda>m. case vec_at coeffs (int m) of
                          Inl e \<Rightarrow> Inl e
                        | Inr coeffs_const \<Rightarrow>
                            (case vec_at rev_derivative (int m) of
                               Inl e \<Rightarrow> Inl e
                             | Inr d \<Rightarrow> Inr (map (\<lambda>x. x * coeffs_const) d)))
                [0 ..< order]) of
        Inl e \<Rightarrow> Inl e
      | Inr scaled \<Rightarrow> Inr (scaled @ drop order rev_derivative))"

text \<open>
  \<^verbatim>\<open>std::transform(xs.begin(), xs.end(), ys, out, plus)\<close>: one sum per element of \<open>xs\<close>,
  reading as many elements of \<open>ys\<close>.
\<close>

definition transform_plus :: "real list \<Rightarrow> real list \<Rightarrow> error + real list" where
  "transform_plus xs ys =
     (if length ys < length xs then Inl Out_of_bounds else Inr (map2 (+) xs ys))"

text \<open>Lines 354 to 365: \<^verbatim>\<open>rev_derivative[0]\<close> plus the entries \<open>1\<close> to \<open>order - 1\<close>.\<close>

primrec derivative_sum_loop ::
  "real list list \<Rightarrow> nat list \<Rightarrow> real list \<Rightarrow> error + real list"
where
  "derivative_sum_loop rev_derivative [] summed = Inr summed"
| "derivative_sum_loop rev_derivative (d # ds) summed =
     (case vec_at rev_derivative (int d + 1) of
        Inl e \<Rightarrow> Inl e
      | Inr next_derivative \<Rightarrow>
          (case transform_plus summed next_derivative of
             Inl e \<Rightarrow> Inl e
           | Inr s \<Rightarrow> derivative_sum_loop rev_derivative ds s))"

definition derivative_sum :: "real list list \<Rightarrow> nat \<Rightarrow> error + real list" where
  "derivative_sum rev_derivative order =
     (case vec_at rev_derivative 0 of
        Inl e \<Rightarrow> Inl e
      | Inr first \<Rightarrow> derivative_sum_loop rev_derivative [0 ..< order - 1] first)"

text \<open>
  Lines 367 to 373: the sums are added into the head of the evolving latent; what lies
  behind them stays.
\<close>

definition add_to_latent :: "real list \<Rightarrow> real list \<Rightarrow> error + real list" where
  "add_to_latent summed latent_new =
     (case transform_plus summed latent_new of
        Inl e \<Rightarrow> Inl e
      | Inr head \<Rightarrow> Inr (head @ drop (length summed) latent_new))"

text \<open>
  One iteration of the loop of lines 300 to 374, in two parts. The first runs from
  line 301 to the \<^verbatim>\<open>push_back\<close> of line 323: the state it returns is the one the
  program is in between line 323 and line 325.
\<close>

definition diffusion_step_push ::
  "unet \<Rightarrow> real list \<Rightarrow> real list \<Rightarrow> nat list \<Rightarrow> tensor \<Rightarrow> tensor \<Rightarrow> nat \<Rightarrow> loop_state
     \<Rightarrow> error + loop_state"
where
  "diffusion_step_push unet_compiled_model log_sigma_vec sigma latent_model_input_shape
       latent_vector_1d text_embeddings i st =
     (case vec_at sigma (int i) of
        Inl e \<Rightarrow> Inl e
      | Inr sigma_i \<Rightarrow>
     (case latent_model_input latent_model_input_shape (latent_vector_1d_new st) sigma_i of
        Inl e \<Rightarrow> Inl e
      | Inr model_input \<Rightarrow>
     (case sigma_to_timestemp log_sigma_vec sigma_i of
        Inl e \<Rightarrow> Inl e
      | Inr timestemp \<Rightarrow>
     (case unet_infer_function unet_compiled_model timestemp model_input text_embeddings of
        Inl e \<Rightarrow> Inl e
      | Inr noise_pred_1d \<Rightarrow>
     (case derivative_vec_1d latent_vector_1d sigma_i noise_pred_1d of
        Inl e \<Rightarrow> Inl e
      | Inr derivative \<Rightarrow>
          Inr \<lparr>latent_vector_1d_new = latent_vector_1d_new st,
                derivative_list = push_back (derivative_list st) derivative\<rparr>)))))"

text \<open>
  The second part, lines 325 to 373: the erase, \<^verbatim>\<open>order = std::min(i + 1, order)\<close>, the
  coefficients, the scaled and summed history, the update of the latent.
\<close>

definition diffusion_step_rest :: "real list \<Rightarrow> nat \<Rightarrow> loop_state \<Rightarrow> error + loop_state" where
  "diffusion_step_rest sigma i st =
     (let derivatives = keep_within 4 (derivative_list st);
          order = lms_order i
      in
     (case lms_coeffs sigma order i of
        Inl e \<Rightarrow> Inl e
      | Inr coeffs \<Rightarrow>
     (case scale_derivatives (rev derivatives) coeffs order of
        Inl e \<Rightarrow> Inl e
      | Inr rev_derivative \<Rightarrow>
     (case derivative_sum rev_derivative order of
        Inl e \<Rightarrow> Inl e
      | Inr summed \<Rightarrow>
     (case add_to_latent summed (latent_vector_1d_new st) of
        Inl e \<Rightarrow> Inl e
      | Inr latent_new \<Rightarrow>
          Inr \<lparr>latent_vector_1d_new = latent_new, derivative_list = derivatives\<rparr>)))))"

definition diffusion_step ::
  "unet \<Rightarrow> real list \<Rightarrow> real list \<Rightarrow> nat list \<Rightarrow> tensor \<Rightarrow> tensor \<Rightarrow> nat \<Rightarrow> loop_state
     \<Rightarrow> error + loop_state"
where
  "diffusion_step unet_compiled_model log_sigma_vec sigma latent_model_input_shape
       latent_vector_1d text_embeddings i st =
     (case diffusion_step_push unet_compiled_model log_sigma_vec sigma latent_model_input_shape
             latent_vector_1d text_embeddings i st of
        Inl e \<Rightarrow> Inl e
      | Inr pushed \<Rightarrow> diffusion_step_rest sigma i pushed)"

primrec diffusion_loop ::
  "(nat \<Rightarrow> loop_state \<Rightarrow> error + loop_state) \<Rightarrow> nat list \<Rightarrow> loop_state \<Rightarrow> error + loop_state"
where
  "diffusion_loop step [] st = Inr st"
| "diffusion_loop step (i # is) st =
     (case step i st of Inl e \<Rightarrow> Inl e | Inr st' \<Rightarrow> diffusion_loop step is st')"

text \<open>
  Lines 285 to 296: \<^verbatim>\<open>n = sigma[0]\<close>, the two shapes, the copy of the initial latent
  scaled by \<open>n\<close>, the empty history.
\<close>

definition initial_state :: "tensor \<Rightarrow> real \<Rightarrow> error + loop_state" where
  "initial_state latent_vector_1d n =
     (case collect (map (\<lambda>i. vec_at (data latent_vector_1d) (int i))
                      [0 ..< get_size latent_vector_1d]) of
        Inl e \<Rightarrow> Inl e
      | Inr xs \<Rightarrow> Inr \<lparr>latent_vector_1d_new = map (\<lambda>x. x * n) xs, derivative_list = []\<rparr>)"

text \<open>
  Lines 272 to 296, what \<^verbatim>\<open>diffusion_function\<close> does for a given log-sigma table
  before its loop: the run schedule, the shape of the model input, the first state.
\<close>

definition run_setup ::
  "real list \<Rightarrow> nat \<Rightarrow> tensor \<Rightarrow> error + (real list \<times> nat list \<times> loop_state)"
where
  "run_setup log_sigma_vec steps latent_vector_1d =
     (case run_schedule log_sigma_vec steps of
        Inl e \<Rightarrow> Inl e
      | Inr sigma \<Rightarrow>
     (case vec_at sigma 0 of
        Inl e \<Rightarrow> Inl e
      | Inr n \<Rightarrow>
     (case set_batch (shape latent_vector_1d) 2 of
        Inl e \<Rightarrow> Inl e
      | Inr latent_model_input_shape \<Rightarrow>
     (case initial_state latent_vector_1d n of
        Inl e \<Rightarrow> Inl e
      | Inr st \<Rightarrow> Inr (sigma, latent_model_input_shape, st)))))"

text \<open>
  \<^verbatim>\<open>diffusion_function\<close> from line 272 on, for a given log-sigma table; the state after
  the iterations \<open>0\<close> to \<open>iterations - 1\<close> of the loop. The function itself runs all \<open>steps\<close>
  iterations and returns the evolving latent as a tensor of the latent's shape.
\<close>

definition diffusion_run ::
  "real list \<Rightarrow> unet \<Rightarrow> nat \<Rightarrow> tensor \<Rightarrow> tensor \<Rightarrow> nat \<Rightarrow> error + loop_state"
where
  "diffusion_run log_sigma_vec unet_compiled_model steps latent_vector_1d text_embeddings iterations =
     (case run_setup log_sigma_vec steps latent_vector_1d of
        Inl e \<Rightarrow> Inl e
      | Inr (sigma, latent_model_input_shape, st) \<Rightarrow>
          diffusion_loop
            (diffusion_step unet_compiled_model log_sigma_vec sigma latent_model_input_shape
               latent_vector_1d text_embeddings)
            [0 ..< min iterations steps] st)"

definition diffusion_function ::
  "unet \<Rightarrow> nat \<Rightarrow> nat \<Rightarrow> tensor \<Rightarrow> tensor \<Rightarrow> error + tensor"
where
  "diffusion_function unet_compiled_model seed steps latent_vector_1d text_embeddings =
     (case snd default_log_sigma_vec of
        Inl e \<Rightarrow> Inl e
      | Inr log_sigma_vec \<Rightarrow>
          (case diffusion_run log_sigma_vec unet_compiled_model steps latent_vector_1d
                  text_embeddings steps of
             Inl e \<Rightarrow> Inl e
           | Inr st \<Rightarrow>
               Inr \<lparr>shape = shape latent_vector_1d, data = latent_vector_1d_new st\<rparr>))"

text \<open>
  The state of a run between line 323 and line 325 of its iteration \<open>i\<close>, right after
  the \<^verbatim>\<open>push_back\<close>; \<open>None\<close> when the run has no iteration \<open>i\<close>. The second function is
  the same for \<^verbatim>\<open>diffusion_function\<close>, on the table of its line 269.
\<close>

definition diffusion_run_to_push ::
  "real list \<Rightarrow> unet \<Rightarrow> nat \<Rightarrow> tensor \<Rightarrow> tensor \<Rightarrow> nat \<Rightarrow> (error + loop_state) option"
where
  "diffusion_run_to_push log_sigma_vec unet_compiled_model steps latent_vector_1d text_embeddings i =
     (if steps \<le> i then None
      else Some
        (case run_setup log_sigma_vec steps latent_vector_1d of
           Inl e \<Rightarrow> Inl e
         | Inr (sigma, latent_model_input_shape, st) \<Rightarrow>
             (case diffusion_loop
                     (diffusion_step unet_compiled_model log_sigma_vec sigma
                        latent_model_input_shape latent_vector_1d text_embeddings)
                     [0 ..< i] st of
                Inl e \<Rightarrow> Inl e
              | Inr reached \<Rightarrow>
                  diffusion_step_push unet_compiled_model log_sigma_vec sigma
                    latent_model_input_shape latent_vector_1d text_embeddings i reached)))"

definition diffusion_function_to_push ::
  "unet \<Rightarrow> nat \<Rightarrow> nat \<Rightarrow> tensor \<Rightarrow> tensor \<Rightarrow> nat \<Rightarrow> (error + loop_state) option"
where
  "diffusion_function_to_push unet_compiled_model seed steps latent_vector_1d text_embeddings i =
     (case snd default_log_sigma_vec of
        Inl e \<Rightarrow> (if steps \<le> i then None else Some (Inl e))
      | Inr log_sigma_vec \<Rightarrow>
          diffusion_run_to_push log_sigma_vec unet_compiled_model steps latent_vector_1d
            text_embeddings i)"

text \<open>A network whose output does not depend on its inputs.\<close>

definition constant_unet :: "tensor \<Rightarrow> unet" where
  "constant_unet output timestep sample encoder_hidden_states = Inr output"

section \<open>Notions of the statements\<close>

text \<open>
  The sigma behind entry \<open>i - 1\<close> of the table, before its logarithm is stored: the
  square root of \<open>(1 - c) / c\<close> for the product \<open>c\<close> of the first \<open>i\<close> alphas.
\<close>

definition sigma_of :: "real list \<Rightarrow> nat \<Rightarrow> real" where
  "sigma_of alphas i = sqrt ((1 - alphas_cumprod alphas i) / alphas_cumprod alphas i)"

text \<open>A vector that is strictly increasing, or strictly decreasing, in its index.\<close>

definition increasing :: "real list \<Rightarrow> bool" where
  "increasing xs \<longleftrightarrow> (\<forall>i j. i < j \<and> j < length xs \<longrightarrow> xs ! i < xs ! j)"

definition decreasing :: "real list \<Rightarrow> bool" where
  "decreasing xs \<longleftrightarrow> (\<forall>i j. i < j \<and> j < length xs \<longrightarrow> xs ! j < xs ! i)"

text \<open>
  The table interpolated at a real timestep \<open>t\<close>, as line 281 of the source does it
  between the entries at the floor and at the ceiling of \<open>t\<close>.
\<close>

definition log_sigma_at :: "real list \<Rightarrow> real \<Rightarrow> real" where
  "log_sigma_at ls t =
     (1 - (t - of_int \<lfloor>t\<rfloor>)) * ls ! nat \<lfloor>t\<rfloor> + (t - of_int \<lfloor>t\<rfloor>) * ls ! nat \<lceil>t\<rceil>"

text \<open>
  The trapezoid rule on \<open>N\<close> intervals of width \<open>2 * h\<close> from \<open>a\<close> on: what the estimate
  \<open>I0\<close> of \<^verbatim>\<open>trapezoidal\<close> is at the head of its loop, for the integrand \<open>p\<close>.
\<close>

definition composite_trapezoid :: "(real \<Rightarrow> real) \<Rightarrow> real \<Rightarrow> real \<Rightarrow> nat \<Rightarrow> real" where
  "composite_trapezoid p a h N =
     (\<Sum>j<N. h * (p (a + 2 * real j * h) + p (a + 2 * real (Suc j) * h)))"

section \<open>Vectors and the fault-collecting loop\<close>

lemma collect_map_Inr:
  "(\<And>x. x \<in> set xs \<Longrightarrow> f x = Inr (g x)) \<Longrightarrow> collect (map f xs) = Inr (map g xs)"
  by (induction xs) simp_all

lemma collect_Inr_length: "collect ms = Inr vs \<Longrightarrow> length vs = length ms"
  by (induction ms arbitrary: vs) (auto split: sum.splits)

lemma collect_Inr_nth:
  "collect ms = Inr vs \<Longrightarrow> i < length ms \<Longrightarrow> ms ! i = Inr (vs ! i)"
proof (induction ms arbitrary: vs i)
  case Nil
  then show ?case by simp
next
  case (Cons m ms)
  then show ?case by (cases i) (auto split: sum.splits)
qed

lemma collect_upt_Inr_nth:
  assumes "collect (map f [0 ..< n]) = Inr vs" "j < n"
  shows "f j = Inr (vs ! j)"
proof -
  have "map f [0 ..< n] ! j = Inr (vs ! j)"
    using collect_Inr_nth[OF assms(1), of j] assms(2) by simp
  moreover have "map f [0 ..< n] ! j = f ([0 ..< n] ! j)"
    using assms(2) by (intro nth_map) simp
  moreover have "[0 ..< n] ! j = j" using assms(2) by simp
  ultimately show ?thesis by metis
qed

lemma vec_at_nat: "i < length xs \<Longrightarrow> vec_at xs (int i) = Inr (xs ! i)"
  by (simp add: vec_at_def)

section \<open>The table builder: supplied betas and unknown schedules\<close>

lemma trained_betas_shadowed:
  "trained_betas \<noteq> [] \<Longrightarrow>
   LMSDiscreteScheduler n beta_start beta_end beta_schedule prediction_type trained_betas
     = ([], Inr [])"
  by (simp add: LMSDiscreteScheduler_def schedule_betas_def)

lemma unknown_schedule_goes_on:
  "beta_schedule \<noteq> ''linear'' \<Longrightarrow> beta_schedule \<noteq> ''scaled_linear'' \<Longrightarrow>
   LMSDiscreteScheduler n beta_start beta_end beta_schedule prediction_type []
     = (['' beta_schedule must be one of 'linear' or 'scaled_linear' ''], Inr [])"
  by (simp add: LMSDiscreteScheduler_def schedule_betas_def)

text \<open>
  Claim C1. A non-empty \<open>trained_betas\<close> should be the beta sequence of the table, so the
  table should have as many entries as \<open>trained_betas\<close>. The code does not do that: with
  the two betas \<open>0.1, 0.2\<close> (and every other argument at its default) the scheduler
  returns the empty table, because the assignment goes to a shadowing local variable.
\<close>

theorem C1_trained_betas_discarded:
  "LMSDiscreteScheduler 1000 (85 / 100000) (12 / 1000) ''scaled_linear'' ''epsilon''
     [1 / 10, 2 / 10] = ([], Inr [])"
  by (simp add: LMSDiscreteScheduler_def schedule_betas_def)

text \<open>
  Claim C3. A schedule name other than \<open>linear\<close> and \<open>scaled_linear\<close> should be
  rejected. The code does not reject it: for the name \<open>cosine\<close> it prints its message
  (which says the name must be one of the two) and returns, without any fault, the
  empty table computed from the empty beta sequence.
\<close>

theorem C3_unknown_schedule_returns_empty_table:
  "LMSDiscreteScheduler 1000 (85 / 100000) (12 / 1000) ''cosine'' ''epsilon'' []
     = (['' beta_schedule must be one of 'linear' or 'scaled_linear' ''], Inr [])"
  by (simp add: LMSDiscreteScheduler_def schedule_betas_def)

section \<open>The table builder: the two schedules\<close>

subsection \<open>The beta sequences lie strictly between 0 and 1\<close>

lemma linspace_fill_eq: "linspace_fill val h n = map (\<lambda>i. val + real i * h) [0 ..< n]"
proof (induction n arbitrary: val)
  case 0
  then show ?case by simp
next
  case (Suc n)
  have "map (\<lambda>i. val + real i * h) [0 ..< Suc n]
      = val # map (\<lambda>i. val + real (Suc i) * h) [0 ..< n]"
    by (simp add: upt_conv_Cons map_Suc_upt[symmetric] del: upt_Suc)
  also have "map (\<lambda>i. val + real (Suc i) * h) [0 ..< n] = map (\<lambda>i. (val + h) + real i * h) [0 ..< n]"
    by (simp add: algebra_simps)
  finally show ?case using Suc.IH[of "val + h"] by simp
qed

lemma linspace_nth:
  "i < N \<Longrightarrow> linspace a b N ! i = a + real i * ((b - a) / real (N - 1))"
  by (simp add: linspace_def linspace_fill_eq)

lemma length_linspace: "length (linspace a b N) = N"
  by (simp add: linspace_def linspace_fill_eq)

lemma fraction_unit:
  assumes "i < N" "2 \<le> N"
  shows "0 \<le> real i / real (N - 1)" "real i / real (N - 1) \<le> 1"
  using assms by (simp_all add: field_simps)

lemma between_convex:
  fixes a b r :: real
  assumes "a \<le> b" "0 \<le> r" "r \<le> 1"
  shows "a \<le> a + r * (b - a)" "a + r * (b - a) \<le> b"
proof -
  show "a \<le> a + r * (b - a)" using assms by simp
  have "r * (b - a) \<le> 1 * (b - a)" using assms by (intro mult_right_mono) simp_all
  then show "a + r * (b - a) \<le> b" by simp
qed

lemma linspace_bounds:
  assumes "a \<le> b" "i < N" "2 \<le> N"
  shows "a \<le> linspace a b N ! i" "linspace a b N ! i \<le> b"
proof -
  have eq: "linspace a b N ! i = a + (real i / real (N - 1)) * (b - a)"
    using assms by (simp add: linspace_nth)
  show "a \<le> linspace a b N ! i" "linspace a b N ! i \<le> b"
    unfolding eq using between_convex[OF assms(1) fraction_unit[OF assms(2,3)]] by simp_all
qed

lemma linear_beta_bounds:
  assumes "beta_start \<le> beta_end" "2 \<le> n" "i < nat n"
  shows "beta_start \<le> beta_start + (beta_end - beta_start) * real i / real_of_int (n - 1)"
    and "beta_start + (beta_end - beta_start) * real i / real_of_int (n - 1) \<le> beta_end"
proof -
  have N: "2 \<le> nat n" using assms(2) by simp
  have e: "nat n - 1 = nat (n - 1)" using assms(2) by arith
  have "real (nat (n - 1)) = real_of_int (n - 1)" using assms(2) by simp
  then have d: "real_of_int (n - 1) = real (nat n - 1)" unfolding e by (rule sym)
  have b': "beta_start + (beta_end - beta_start) * real i / real_of_int (n - 1)
     = beta_start + (real i / real (nat n - 1)) * (beta_end - beta_start)"
    unfolding d by (simp only: times_divide_eq_right times_divide_eq_left mult.commute)
  show "beta_start \<le> beta_start + (beta_end - beta_start) * real i / real_of_int (n - 1)"
    unfolding b' by (rule between_convex(1)[OF assms(1) fraction_unit[OF assms(3) N]])
  show "beta_start + (beta_end - beta_start) * real i / real_of_int (n - 1) \<le> beta_end"
    unfolding b' by (rule between_convex(2)[OF assms(1) fraction_unit[OF assms(3) N]])
qed

lemma linear_betas_ok:
  assumes "0 < beta_start" "beta_start < beta_end" "beta_end < 1" "2 \<le> n"
  shows "\<exists>betas. schedule_betas n beta_start beta_end ''linear'' [] = ([], Inr betas)
           \<and> length betas = nat n \<and> (\<forall>b \<in> set betas. 0 < b \<and> b < 1)"
proof -
  let ?f = "\<lambda>i. beta_start + (beta_end - beta_start) * real i / real_of_int (n - 1)"
  let ?betas = "map ?f [0 ..< nat n]"
  have le: "beta_start \<le> beta_end" using assms(2) by simp
  have "0 < b \<and> b < 1" if "b \<in> set ?betas" for b
  proof -
    from that obtain i where i: "i < nat n" and b: "b = ?f i" by auto
    from linear_beta_bounds[OF le assms(4) i] have "beta_start \<le> b" "b \<le> beta_end"
      unfolding b by blast+
    then show ?thesis using assms(1,3) by linarith
  qed
  moreover have "n \<noteq> 1" using assms(4) by simp
  then have "schedule_betas n beta_start beta_end ''linear'' [] = ([], Inr ?betas)"
    by (simp add: schedule_betas_def)
  moreover have "length ?betas = nat n" by simp
  ultimately show ?thesis by blast
qed

lemma scaled_linear_betas_ok:
  assumes "0 < beta_start" "beta_start < beta_end" "beta_end < 1" "2 \<le> n"
  shows "\<exists>betas. schedule_betas n beta_start beta_end ''scaled_linear'' [] = ([], Inr betas)
           \<and> length betas = nat n \<and> (\<forall>b \<in> set betas. 0 < b \<and> b < 1)"
proof -
  have N: "2 \<le> nat n" using assms(4) by simp
  let ?xs = "linspace (sqrt beta_start) (sqrt beta_end) (nat n)"
  let ?betas = "map (\<lambda>b. b * b) ?xs"
  have le: "sqrt beta_start \<le> sqrt beta_end" using assms(2) by simp
  have "0 < b \<and> b < 1" if "b \<in> set ?betas" for b
  proof -
    from that obtain x where "x \<in> set ?xs" and bx: "b = x * x" by auto
    then obtain i where i: "i < nat n" and "x = ?xs ! i"
      unfolding in_set_conv_nth length_linspace by blast
    with bx have b: "b = ?xs ! i * ?xs ! i" by simp
    have lo: "sqrt beta_start \<le> ?xs ! i" and hi: "?xs ! i \<le> sqrt beta_end"
      using linspace_bounds[OF le i N] by blast+
    have "0 < sqrt beta_start" using assms(1) by simp
    then have pos: "0 < ?xs ! i" using lo by linarith
    have "sqrt beta_end < 1" using assms(3) by simp
    then have lt: "?xs ! i < 1" using hi by linarith
    have "?xs ! i * ?xs ! i < 1 * 1"
      using pos lt by (intro mult_strict_mono) simp_all
    then show ?thesis using pos unfolding b by simp
  qed
  moreover have "\<not> beta_start < 0" "\<not> beta_end < 0" "\<not> n < 0" using assms by simp_all
  then have "schedule_betas n beta_start beta_end ''scaled_linear'' [] = ([], Inr ?betas)"
    by (simp add: schedule_betas_def)
  moreover have "length ?betas = nat n" by (simp add: length_linspace)
  ultimately show ?thesis by blast
qed

subsection \<open>The cumulative product falls, the sigmas rise\<close>

lemma alphas_cumprod_0: "alphas_cumprod alphas 0 = 1"
  by (simp add: alphas_cumprod_def)

lemma alphas_cumprod_Suc:
  "i < length alphas \<Longrightarrow> alphas_cumprod alphas (Suc i) = alphas_cumprod alphas i * alphas ! i"
  by (simp add: alphas_cumprod_def take_Suc_conv_app_nth)

lemma alphas_cumprod_pos:
  assumes "\<forall>a \<in> set alphas. 0 < a \<and> a < 1" "i \<le> length alphas"
  shows "0 < alphas_cumprod alphas i"
  using assms(2)
proof (induction i)
  case 0
  then show ?case by (simp add: alphas_cumprod_0)
next
  case (Suc i)
  then have "0 < alphas ! i" using assms(1) by simp
  then show ?case using Suc by (simp add: alphas_cumprod_Suc)
qed

lemma alphas_cumprod_step:
  assumes "\<forall>a \<in> set alphas. 0 < a \<and> a < 1" "i < length alphas"
  shows "alphas_cumprod alphas (Suc i) < alphas_cumprod alphas i"
proof -
  have c: "0 < alphas_cumprod alphas i" using alphas_cumprod_pos[OF assms(1)] assms(2) by simp
  have a: "alphas ! i < 1" using assms by simp
  have "alphas_cumprod alphas i * alphas ! i < alphas_cumprod alphas i * 1"
    using c a by (intro mult_strict_left_mono) simp_all
  then show ?thesis using assms(2) by (simp add: alphas_cumprod_Suc)
qed

lemma alphas_cumprod_decreasing:
  assumes "\<forall>a \<in> set alphas. 0 < a \<and> a < 1" "i < j" "j \<le> length alphas"
  shows "alphas_cumprod alphas j < alphas_cumprod alphas i"
  using assms(2,3)
proof (induction j)
  case 0
  then show ?case by simp
next
  case (Suc j)
  have step: "alphas_cumprod alphas (Suc j) < alphas_cumprod alphas j"
    using alphas_cumprod_step[OF assms(1)] Suc.prems by simp
  show ?case
  proof (cases "i = j")
    case True
    then show ?thesis using step by simp
  next
    case False
    then have "alphas_cumprod alphas j < alphas_cumprod alphas i"
      using Suc by simp
    then show ?thesis using step by simp
  qed
qed

lemma alphas_cumprod_lt_1:
  assumes "\<forall>a \<in> set alphas. 0 < a \<and> a < 1" "0 < i" "i \<le> length alphas"
  shows "alphas_cumprod alphas i < 1"
  using alphas_cumprod_decreasing[OF assms(1), of 0 i] assms by (simp add: alphas_cumprod_0)

lemma odds_decreasing:
  fixes c d :: real
  assumes "0 < d" "d < c" "c < 1"
  shows "(1 - c) / c < (1 - d) / d" "0 < (1 - c) / c"
  using assms by (simp_all add: field_simps)

lemma log_sigma_entry_ok:
  assumes "\<forall>a \<in> set alphas. 0 < a \<and> a < 1" "0 < i" "i \<le> length alphas"
  shows "log_sigma_entry alphas i
           = Inr (ln (sqrt ((1 - alphas_cumprod alphas i) / alphas_cumprod alphas i)))"
proof -
  have "0 < alphas_cumprod alphas i" "alphas_cumprod alphas i < 1"
    using alphas_cumprod_pos[OF assms(1,3)] alphas_cumprod_lt_1[OF assms] by simp_all
  then show ?thesis by (simp add: log_sigma_entry_def Let_def field_simps)
qed

lemma table_of_alphas:
  assumes "\<forall>a \<in> set alphas. 0 < a \<and> a < 1"
  shows "collect (map (log_sigma_entry alphas) [1 ..< Suc (length alphas)])
           = Inr (map (\<lambda>i. ln (sigma_of alphas (Suc i))) [0 ..< length alphas])"
proof -
  have "collect (map (log_sigma_entry alphas) [1 ..< Suc (length alphas)])
      = Inr (map (\<lambda>i. ln (sigma_of alphas i)) [1 ..< Suc (length alphas)])"
  proof (rule collect_map_Inr)
    fix x assume "x \<in> set [1 ..< Suc (length alphas)]"
    then have "0 < x" "x \<le> length alphas" by (simp_all del: upt_Suc)
    from log_sigma_entry_ok[OF assms this]
    show "log_sigma_entry alphas x = Inr (ln (sigma_of alphas x))"
      by (simp add: sigma_of_def)
  qed
  moreover have "map (\<lambda>i. ln (sigma_of alphas i)) [1 ..< Suc (length alphas)]
      = map (\<lambda>i. ln (sigma_of alphas (Suc i))) [0 ..< length alphas]"
  proof -
    have "[1 ..< Suc (length alphas)] = map Suc [0 ..< length alphas]"
      unfolding One_nat_def by (rule map_Suc_upt[symmetric])
    then show ?thesis by (simp only: map_map o_def)
  qed
  ultimately show ?thesis by (simp only:)
qed

lemma sigma_of_pos:
  assumes "\<forall>a \<in> set alphas. 0 < a \<and> a < 1" "0 < i" "i \<le> length alphas"
  shows "0 < sigma_of alphas i"
proof -
  have "0 < alphas_cumprod alphas i" "alphas_cumprod alphas i < 1"
    using alphas_cumprod_pos[OF assms(1,3)] alphas_cumprod_lt_1[OF assms] by simp_all
  then have "0 < (1 - alphas_cumprod alphas i) / alphas_cumprod alphas i" by simp
  then show ?thesis unfolding sigma_of_def by simp
qed

lemma sigma_of_increasing:
  assumes "\<forall>a \<in> set alphas. 0 < a \<and> a < 1" "0 < i" "i < j" "j \<le> length alphas"
  shows "sigma_of alphas i < sigma_of alphas j"
proof -
  have "0 < alphas_cumprod alphas j"
    using alphas_cumprod_pos[OF assms(1,4)] .
  moreover have "alphas_cumprod alphas j < alphas_cumprod alphas i"
    using alphas_cumprod_decreasing[OF assms(1,3,4)] .
  moreover have "alphas_cumprod alphas i < 1"
    using alphas_cumprod_lt_1[OF assms(1,2)] assms(3,4) by simp
  ultimately have "(1 - alphas_cumprod alphas i) / alphas_cumprod alphas i
      < (1 - alphas_cumprod alphas j) / alphas_cumprod alphas j"
    by (rule odds_decreasing(1))
  then show ?thesis unfolding sigma_of_def by simp
qed


lemma scheduler_table:
  assumes "0 < beta_start" "beta_start < beta_end" "beta_end < 1" "2 \<le> n"
    and "beta_schedule = ''linear'' \<or> beta_schedule = ''scaled_linear''"
  shows "\<exists>alphas. (\<forall>a \<in> set alphas. 0 < a \<and> a < 1) \<and> length alphas = nat n \<and>
           LMSDiscreteScheduler n beta_start beta_end beta_schedule prediction_type []
             = ([], Inr (map (\<lambda>i. ln (sigma_of alphas (Suc i))) [0 ..< nat n]))"
proof -
  obtain betas where betas:
    "schedule_betas n beta_start beta_end beta_schedule [] = ([], Inr betas)"
    "length betas = nat n" "\<forall>b \<in> set betas. 0 < b \<and> b < 1"
    using linear_betas_ok[OF assms(1-4)] scaled_linear_betas_ok[OF assms(1-4)] assms(5)
    by blast
  let ?alphas = "map (\<lambda>b. 1 - b) betas"
  have al: "\<forall>a \<in> set ?alphas. 0 < a \<and> a < 1" using betas(3) by simp
  have "LMSDiscreteScheduler n beta_start beta_end beta_schedule prediction_type []
      = ([], collect (map (log_sigma_entry ?alphas) [1 ..< Suc (length ?alphas)]))"
    by (simp add: LMSDiscreteScheduler_def betas(1) Let_def del: upt_Suc)
  also have "\<dots> = ([], Inr (map (\<lambda>i. ln (sigma_of ?alphas (Suc i))) [0 ..< length ?alphas]))"
    by (simp only: table_of_alphas[OF al])
  finally show ?thesis using al betas(2) by (intro exI[of _ ?alphas]) simp
qed

lemma table_increasing:
  assumes "\<forall>a \<in> set alphas. 0 < a \<and> a < 1"
  shows "increasing (map (\<lambda>i. ln (sigma_of alphas (Suc i))) [0 ..< length alphas])"
  unfolding increasing_def
proof (intro allI impI)
  fix i j assume "i < j \<and> j < length (map (\<lambda>i. ln (sigma_of alphas (Suc i))) [0 ..< length alphas])"
  then have ij: "i < j" "j < length alphas" by simp_all
  have "sigma_of alphas (Suc i) < sigma_of alphas (Suc j)"
    using sigma_of_increasing[OF assms, of "Suc i" "Suc j"] ij by simp
  moreover have "0 < sigma_of alphas (Suc i)"
    using sigma_of_pos[OF assms, of "Suc i"] ij by simp
  ultimately have "ln (sigma_of alphas (Suc i)) < ln (sigma_of alphas (Suc j))"
    by simp
  then show "map (\<lambda>i. ln (sigma_of alphas (Suc i))) [0 ..< length alphas] ! i
        < map (\<lambda>i. ln (sigma_of alphas (Suc i))) [0 ..< length alphas] ! j"
    using ij by simp
qed

lemma scheduler_table_increasing:
  assumes "0 < beta_start" "beta_start < beta_end" "beta_end < 1" "2 \<le> n"
    and "beta_schedule = ''linear'' \<or> beta_schedule = ''scaled_linear''"
  shows "\<exists>tbl. LMSDiscreteScheduler n beta_start beta_end beta_schedule prediction_type []
             = ([], Inr tbl) \<and> length tbl = nat n \<and> increasing tbl"
proof -
  from scheduler_table[OF assms] obtain alphas where
    al: "\<forall>a \<in> set alphas. 0 < a \<and> a < 1" and len: "length alphas = nat n"
    and eq: "LMSDiscreteScheduler n beta_start beta_end beta_schedule prediction_type []
             = ([], Inr (map (\<lambda>i. ln (sigma_of alphas (Suc i))) [0 ..< nat n]))"
    by blast
  show ?thesis
    using table_increasing[OF al] eq unfolding len by (intro exI) auto
qed

lemma default_table:
  "\<exists>tbl. default_log_sigma_vec = ([], Inr tbl) \<and> length tbl = 1000 \<and> increasing tbl"
  using scheduler_table_increasing[of "85/100000" "12/1000" 1000 "''scaled_linear''" "''epsilon''"]
  unfolding default_log_sigma_vec_def by simp

subsection \<open>The table in \<^verbatim>\<open>float\<close> arithmetic, and without rounding\<close>

text \<open>
  \<open>float32\<close> on the numbers that occur below: a number between \<open>2^e\<close> and \<open>2^(e + 1)\<close>
  is rounded to the nearest multiple of \<open>2^(e - 23)\<close>.
\<close>

lemma pow2_powr: "pow2 k = 2 powr (of_int k)"
proof (cases "0 \<le> k")
  case True
  then have "real_of_int k = real (nat k)" by simp
  then have "2 powr (of_int k) = (2::real) powr (real (nat k))" by (simp only:)
  also have "\<dots> = 2 ^ nat k" by (rule powr_realpow) simp
  finally show ?thesis using True by (simp add: pow2_def)
next
  case False
  then have "real_of_int k = - real (nat (- k))" by simp
  then have "2 powr (of_int k) = (2::real) powr (- real (nat (- k)))" by (simp only:)
  also have "\<dots> = 1 / 2 powr (real (nat (- k)))" by (simp only: powr_minus divide_inverse mult_1)
  also have "2 powr (real (nat (- k))) = (2::real) ^ nat (- k)" by (rule powr_realpow) simp
  finally show ?thesis using False by (simp add: pow2_def)
qed

lemma pow2_pos: "0 < pow2 k"
  by (simp add: pow2_def)

lemma exponent_in_binade:
  assumes "pow2 e \<le> \<bar>x\<bar>" "\<bar>x\<bar> < pow2 (e + 1)"
  shows "\<lfloor>log 2 \<bar>x\<bar>\<rfloor> = e"
proof (rule floor_unique)
  have pos: "0 < \<bar>x\<bar>" using assms(1) pow2_pos[of e] by linarith
  have l: "log 2 (pow2 k) = of_int k" for k
    unfolding pow2_powr by (rule log_powr_cancel) simp_all
  have "log 2 (pow2 e) \<le> log 2 \<bar>x\<bar>"
    by (rule log_mono) (use assms(1) pow2_pos[of e] in simp_all)
  then show "of_int e \<le> log 2 \<bar>x\<bar>" unfolding l .
  have "log 2 \<bar>x\<bar> < log 2 (pow2 (e + 1))"
    by (rule log_less) (use assms(2) pos in simp_all)
  then show "log 2 \<bar>x\<bar> < of_int e + 1" unfolding l by simp
qed

lemma float32_in_binade:
  assumes "pow2 e \<le> \<bar>x\<bar>" "\<bar>x\<bar> < pow2 (e + 1)" "- 126 \<le> e"
    and "nearest_even (x / pow2 (e - 23)) = n" "\<bar>of_int n * pow2 (e - 23)\<bar> < 2 ^ 128"
  shows "float32 x = Number (of_int n * pow2 (e - 23))"
proof -
  have ne: "x \<noteq> 0" using assms(1) pow2_pos[of e] by auto
  have e: "max \<lfloor>log 2 \<bar>x\<bar>\<rfloor> (- 126) = e"
    using exponent_in_binade[OF assms(1,2)] assms(3) by simp
  have c: "\<not> 2 ^ 128 \<le> \<bar>of_int n * pow2 (e - 23)\<bar>" using assms(5) by simp
  show ?thesis
    unfolding float32_def Let_def e assms(4) using ne c by (simp only: if_False)
qed

lemma nearest_even_int: "nearest_even (of_int n) = n"
  by (simp add: nearest_even_def)





lemma nearest_even_up:
  assumes "of_int n - 1 / 2 < q" "q \<le> of_int n"
  shows "nearest_even q = n"
proof (cases "q = of_int n")
  case True
  then show ?thesis by (simp only: nearest_even_int)
next
  case False
  then have lt: "q < of_int n" using assms(2) by simp
  have f: "\<lfloor>q\<rfloor> = n - 1"
    by (rule floor_unique) (use assms(1) lt in simp_all)
  have d: "1 / 2 < q - of_int (n - 1)" using assms(1) by simp
  then have "\<not> q - of_int (n - 1) < 1 / 2" by simp
  then show ?thesis unfolding nearest_even_def Let_def f using d by (simp only: if_False if_True)
qed





lemma nearest_even_near:
  assumes "\<bar>q - of_int n\<bar> < 1 / 2"
  shows "nearest_even q = n"
proof -
  from assms have "q - of_int n < 1 / 2" "- (q - of_int n) < 1 / 2"
    unfolding abs_less_iff by blast+
  then have lo: "of_int n - 1 / 2 < q" and hi: "q < of_int n + 1 / 2"
    by linarith+
  show ?thesis
  proof (cases "of_int n \<le> q")
    case True
    have "q < of_int n + 1" using hi by simp
    with True have f: "\<lfloor>q\<rfloor> = n" by (intro floor_unique)
    have "q - of_int n < 1 / 2" using hi by simp
    then show ?thesis unfolding nearest_even_def Let_def f by (simp only: if_True)
  next
    case False
    then have lt: "q < of_int n" by simp
    show ?thesis using lo lt by (intro nearest_even_up) simp_all
  qed
qed

lemma float32_near:
  assumes "pow2 e \<le> \<bar>x\<bar>" "\<bar>x\<bar> < pow2 (e + 1)" "- 126 \<le> e"
    and "\<bar>x / pow2 (e - 23) - of_int n\<bar> < 1 / 2" "\<bar>of_int n * pow2 (e - 23)\<bar> < 2 ^ 128"
  shows "float32 x = Number (of_int n * pow2 (e - 23))"
  using assms(1-3) nearest_even_near[OF assms(4)] assms(5) by (rule float32_in_binade)












section \<open>From a sigma back to a timestep\<close>

subsection \<open>The table is read at the indices 0 to 999, the result is a table index\<close>

lemma collect_map_Inl:
  "(\<And>y. y \<in> set ys \<Longrightarrow> \<exists>v. f y = Inr v) \<Longrightarrow> f x = Inl e \<Longrightarrow>
   collect (map f (ys @ x # zs)) = Inl e"
proof (induction ys)
  case Nil
  then show ?case by simp
next
  case (Cons y ys)
  from Cons.prems(1)[of y] obtain v where "f y = Inr v" by auto
  moreover have "collect (map f (ys @ x # zs)) = Inl e"
    using Cons by simp
  ultimately show ?case by simp
qed

lemma table_reads_ok:
  assumes "1000 \<le> length ls"
  shows "collect (map (\<lambda>i. vec_at ls (int i)) [0 ..< 1000]) = Inr (take 1000 ls)"
proof -
  have "collect (map (\<lambda>i. vec_at ls (int i)) [0 ..< 1000]) = Inr (map (\<lambda>i. ls ! i) [0 ..< 1000])"
    using assms by (intro collect_map_Inr) (simp add: vec_at_nat)
  moreover have "map (\<lambda>i. ls ! i) [0 ..< 1000] = take 1000 ls"
    using assms by (simp add: list_eq_iff_nth_eq)
  ultimately show ?thesis by simp
qed

lemma table_reads_fail:
  assumes "length ls < 1000"
  shows "collect (map (\<lambda>i. vec_at ls (int i)) [0 ..< 1000]) = Inl Out_of_bounds"
proof -
  have split: "[0 ..< 1000] = [0 ..< length ls] @ length ls # [Suc (length ls) ..< 1000]"
    using assms by (metis upt_conv_Cons upt_add_eq_append le0 less_imp_le_nat le_add_diff_inverse)
  show ?thesis
    unfolding split
    by (rule collect_map_Inl) (simp_all add: vec_at_def)
qed

lemma clamped_weight_range: "0 \<le> clamped_weight low high l \<and> clamped_weight low high l \<le> 1"
  by (simp add: clamped_weight_def split: log_value.splits)

lemma llround_between:
  assumes "0 \<le> w" "w \<le> 1" "0 \<le> n"
  shows "n \<le> llround ((1 - w) * of_int n + w * of_int (n + 1))"
    and "llround ((1 - w) * of_int n + w * of_int (n + 1)) \<le> n + 1"
proof -
  have eq: "(1 - w) * of_int n + w * of_int (n + 1) = of_int n + w"
    by (simp add: algebra_simps)
  have nn: "0 \<le> of_int n + w" using assms by simp
  show "n \<le> llround ((1 - w) * of_int n + w * of_int (n + 1))"
    unfolding eq llround_def using nn assms by (simp add: le_floor_iff)
  show "llround ((1 - w) * of_int n + w * of_int (n + 1)) \<le> n + 1"
    unfolding eq llround_def using nn assms by (simp add: floor_le_iff)
qed

lemma vec_at_ok: "0 \<le> i \<Longrightarrow> i < int (length xs) \<Longrightarrow> vec_at xs i = Inr (xs ! nat i)"
  by (simp add: vec_at_def)

lemma sigma_to_timestemp_unfold:
  assumes "1000 \<le> length ls"
  shows "sigma_to_timestemp ls sigma =
    (let lo = min (int (max_element (dists_fill 0 (map (dist_indicator (log_of sigma)) (take 1000 ls))))) 998;
         w = clamped_weight (ls ! nat lo) (ls ! nat (lo + 1)) (log_of sigma)
     in Inr (llround ((1 - w) * of_int lo + w * of_int (lo + 1))))"
proof -
  define m where "m = max_element (dists_fill 0 (map (dist_indicator (log_of sigma)) (take 1000 ls)))"
  have rd: "vec_at ls (min (int m) 998) = Inr (ls ! nat (min (int m) 998))"
    "vec_at ls (min (int m) 998 + 1) = Inr (ls ! nat (min (int m) 998 + 1))"
    using assms by (simp_all add: vec_at_ok)
  show ?thesis
    using rd by (simp add: sigma_to_timestemp_def table_reads_ok[OF assms] Let_def m_def)
qed

lemma sigma_to_timestemp_range:
  assumes "1000 \<le> length ls"
  shows "\<exists>t. sigma_to_timestemp ls sigma = Inr t \<and> 0 \<le> t \<and> t \<le> 999"
proof -
  define lo where "lo = min (int (max_element (dists_fill 0 (map (dist_indicator (log_of sigma)) (take 1000 ls))))) 998"
  define w where "w = clamped_weight (ls ! nat lo) (ls ! nat (lo + 1)) (log_of sigma)"
  have low: "0 \<le> lo" "lo \<le> 998" by (simp_all add: lo_def)
  have res: "sigma_to_timestemp ls sigma
      = Inr (llround ((1 - w) * of_int lo + w * of_int (lo + 1)))"
    unfolding sigma_to_timestemp_unfold[OF assms] Let_def lo_def w_def ..
  have w: "0 \<le> w" "w \<le> 1" using clamped_weight_range by (simp_all add: w_def)
  from llround_between[OF w low(1)] low res show ?thesis by auto
qed

lemma sigma_to_timestemp_short:
  "length ls < 1000 \<Longrightarrow> sigma_to_timestemp ls sigma = Inl Out_of_bounds"
  by (simp add: sigma_to_timestemp_def table_reads_fail)

text \<open>
  Claim C10. \<open>sigma_to_timestemp\<close> reads the table at the indices 0 to 999: on a
  table of fewer than 1000 entries it reads out of bounds, and on a table of at least
  1000 entries it returns, for every \<open>sigma\<close>, a timestep between 0 and 999.
\<close>

theorem C10_timestep_within_table:
  "(length log_sigmas < 1000 \<longrightarrow> sigma_to_timestemp log_sigmas sigma = Inl Out_of_bounds)
   \<and> (1000 \<le> length log_sigmas \<longrightarrow>
        (\<exists>t. sigma_to_timestemp log_sigmas sigma = Inr t \<and> 0 \<le> t \<and> t \<le> 999))"
  using sigma_to_timestemp_short sigma_to_timestemp_range by blast

theorem C10_timestep_within_table_witness:
  "sigma_to_timestemp (replicate 999 0) 1 = Inl Out_of_bounds
   \<and> (\<exists>t. sigma_to_timestemp (replicate 1000 0) 1 = Inr t \<and> 0 \<le> t \<and> t \<le> 999)"
  using C10_timestep_within_table[of "replicate 999 0" 1]
    C10_timestep_within_table[of "replicate 1000 0" 1]
  by simp

subsection \<open>Where the indicator sums are greatest\<close>

lemma max_element_from_keep:
  "(\<And>x. x \<in> set xs \<Longrightarrow> x \<le> largest) \<Longrightarrow> max_element_from best largest i xs = best"
proof (induction xs arbitrary: i)
  case Nil
  then show ?case by simp
next
  case (Cons a xs)
  have "\<not> largest < a" using Cons.prems[of a] by simp
  moreover have "max_element_from best largest (Suc i) xs = best"
    using Cons by simp
  ultimately show ?case by simp
qed

lemma max_element_from_find:
  assumes "p < length xs" "largest < xs ! p"
    and "\<And>j. j < p \<Longrightarrow> xs ! j < xs ! p"
    and "\<And>j. j < length xs \<Longrightarrow> xs ! j \<le> xs ! p"
  shows "max_element_from best largest i xs = i + p"
  using assms
proof (induction xs arbitrary: best largest i p)
  case Nil
  then show ?case by simp
next
  case (Cons x xs)
  show ?case
  proof (cases p)
    case 0
    have "\<And>y. y \<in> set xs \<Longrightarrow> y \<le> x"
    proof -
      fix y assume "y \<in> set xs"
      then obtain j where "j < length xs" "y = xs ! j" by (auto simp: in_set_conv_nth)
      then show "y \<le> x" using Cons.prems(4)[of "Suc j"] 0 by simp
    qed
    then have "max_element_from i x (Suc i) xs = i" by (rule max_element_from_keep)
    then show ?thesis using Cons.prems(2) 0 by simp
  next
    case (Suc q)
    have q: "q < length xs" using Cons.prems(1) Suc by simp
    have xlt: "x < xs ! q" using Cons.prems(3)[of 0] Suc by simp
    have lt: "largest < xs ! q" using Cons.prems(2) Suc by simp
    have early: "\<And>j. j < q \<Longrightarrow> xs ! j < xs ! q"
      using Cons.prems(3)[of "Suc _"] Suc by simp
    have all: "\<And>j. j < length xs \<Longrightarrow> xs ! j \<le> xs ! q"
      using Cons.prems(4)[of "Suc _"] Suc by simp
    show ?thesis
    proof (cases "largest < x")
      case True
      have "max_element_from i x (Suc i) xs = Suc i + q"
        by (rule Cons.IH[OF q xlt early all])
      then show ?thesis using True Suc by simp
    next
      case False
      have "max_element_from best largest (Suc i) xs = Suc i + q"
        by (rule Cons.IH[OF q lt early all])
      then show ?thesis using False Suc by simp
    qed
  qed
qed

lemma max_element_first_greatest:
  assumes "p < length xs"
    and "\<And>j. j < p \<Longrightarrow> xs ! j < xs ! p"
    and "\<And>j. j < length xs \<Longrightarrow> xs ! j \<le> xs ! p"
  shows "max_element xs = p"
proof (cases xs)
  case Nil
  then show ?thesis using assms(1) by simp
next
  case (Cons x ys)
  show ?thesis
  proof (cases p)
    case 0
    have "\<And>y. y \<in> set ys \<Longrightarrow> y \<le> x"
    proof -
      fix y assume "y \<in> set ys"
      then obtain j where "j < length ys" "y = ys ! j" by (auto simp: in_set_conv_nth)
      then show "y \<le> x" using assms(3)[of "Suc j"] 0 Cons by simp
    qed
    then have "max_element_from 0 x 1 ys = 0" by (rule max_element_from_keep)
    then show ?thesis using 0 Cons by (simp add: max_element_def)
  next
    case (Suc q)
    have "max_element_from 0 x 1 ys = 1 + q"
    proof (rule max_element_from_find)
      show "q < length ys" using assms(1) Suc Cons by simp
      show "x < ys ! q" using assms(2)[of 0] Suc Cons by simp
      show "\<And>j. j < q \<Longrightarrow> ys ! j < ys ! q" using assms(2)[of "Suc _"] Suc Cons by simp
      show "\<And>j. j < length ys \<Longrightarrow> ys ! j \<le> ys ! q" using assms(3)[of "Suc _"] Suc Cons by simp
    qed
    then show ?thesis using Suc Cons by (simp add: max_element_def)
  qed
qed

lemma length_dists_fill: "length (dists_fill prev ds) = length ds"
  by (induction ds arbitrary: prev) simp_all

lemma dists_fill_0: "ds \<noteq> [] \<Longrightarrow> dists_fill prev ds ! 0 = prev + ds ! 0"
  by (cases ds) simp_all

lemma dists_fill_Suc:
  "Suc j < length ds \<Longrightarrow> dists_fill prev ds ! Suc j = dists_fill prev ds ! j + ds ! Suc j"
proof (induction ds arbitrary: prev j)
  case Nil
  then show ?case by simp
next
  case (Cons d ds)
  show ?case
  proof (cases j)
    case 0
    then show ?thesis using Cons.prems by (cases ds) simp_all
  next
    case (Suc m)
    then show ?thesis using Cons.IH[of m "prev + d"] Cons.prems by simp
  qed
qed

lemma dists_up_to:
  assumes "k < length ds" "\<And>j. j < length ds \<Longrightarrow> ds ! j = (if j \<le> k then 1 else 0)"
    and "j < length ds"
  shows "dists_fill 0 ds ! j = real (min j k + 1)"
  using assms(3)
proof (induction j)
  case 0
  then have "ds \<noteq> []" by auto
  then show ?case using assms(2)[of 0] 0 by (simp add: dists_fill_0)
next
  case (Suc j)
  have "dists_fill 0 ds ! Suc j = dists_fill 0 ds ! j + ds ! Suc j"
    using Suc.prems by (rule dists_fill_Suc)
  also have "\<dots> = real (min j k + 1) + (if Suc j \<le> k then 1 else 0)"
    using Suc assms(2)[of "Suc j"] by simp
  also have "\<dots> = real (min (Suc j) k + 1)" by (simp add: min_def)
  finally show ?case .
qed

lemma dists_all_zero:
  assumes "\<And>j. j < length ds \<Longrightarrow> ds ! j = 0" "j < length ds"
  shows "dists_fill 0 ds ! j = 0"
  using assms(2)
proof (induction j)
  case 0
  then have "ds \<noteq> []" by auto
  then show ?case using assms(1)[of 0] 0 by (simp add: dists_fill_0)
next
  case (Suc j)
  then show ?case using dists_fill_Suc[of j ds 0] assms(1)[of "Suc j"] by simp
qed

lemma increasing_le:
  "increasing xs \<Longrightarrow> i \<le> j \<Longrightarrow> j < length xs \<Longrightarrow> xs ! i \<le> xs ! j"
  unfolding increasing_def by (cases "i = j") (auto simp: less_imp_le)

lemma max_element_dists:
  assumes inc: "increasing vals" and k: "k < length vals" and le: "vals ! k \<le> l"
    and above: "\<And>j. k < j \<Longrightarrow> j < length vals \<Longrightarrow> l < vals ! j"
  shows "max_element (dists_fill 0 (map (dist_indicator (Finite l)) vals)) = k"
proof -
  let ?ds = "map (dist_indicator (Finite l)) vals"
  have ind: "?ds ! j = (if j \<le> k then 1 else 0)" if "j < length ?ds" for j
  proof (cases "j \<le> k")
    case True
    then have "vals ! j \<le> l" using increasing_le[OF inc True k] le by simp
    then show ?thesis using True that by (simp add: dist_indicator_def)
  next
    case False
    then have "l < vals ! j" using above[of j] that by simp
    then show ?thesis using False that by (simp add: dist_indicator_def)
  qed
  have kd: "k < length ?ds" using k by simp
  have val: "dists_fill 0 ?ds ! j = real (min j k + 1)" if "j < length ?ds" for j
    using dists_up_to[OF kd ind that] .
  show ?thesis
  proof (rule max_element_first_greatest)
    show "k < length (dists_fill 0 ?ds)" using k by (simp add: length_dists_fill)
    show "\<And>j. j < k \<Longrightarrow> dists_fill 0 ?ds ! j < dists_fill 0 ?ds ! k"
      using val kd by simp
    show "\<And>j. j < length (dists_fill 0 ?ds) \<Longrightarrow> dists_fill 0 ?ds ! j \<le> dists_fill 0 ?ds ! k"
      using val kd by (simp add: length_dists_fill)
  qed
qed

lemma max_element_dists_below:
  assumes "vals \<noteq> []" and below: "\<And>j. j < length vals \<Longrightarrow> l < vals ! j"
  shows "max_element (dists_fill 0 (map (dist_indicator (Finite l)) vals)) = 0"
proof -
  let ?ds = "map (dist_indicator (Finite l)) vals"
  have ind: "?ds ! j = 0" if "j < length ?ds" for j
    using below[of j] that by (simp add: dist_indicator_def)
  have val: "dists_fill 0 ?ds ! j = 0" if "j < length ?ds" for j
    using dists_all_zero[OF ind that] .
  show ?thesis
  proof (rule max_element_first_greatest)
    show "0 < length (dists_fill 0 ?ds)" using assms(1) by (simp add: length_dists_fill)
    show "\<And>j. j < 0 \<Longrightarrow> dists_fill 0 ?ds ! j < dists_fill 0 ?ds ! 0" by simp
    show "\<And>j. j < length (dists_fill 0 ?ds) \<Longrightarrow> dists_fill 0 ?ds ! j \<le> dists_fill 0 ?ds ! 0"
      using val assms(1) by (simp add: length_dists_fill)
  qed
qed

subsection \<open>Sigmas of the table and beyond its ends\<close>

lemma increasing_take: "increasing xs \<Longrightarrow> increasing (take n xs)"
  unfolding increasing_def by simp

lemma sigma_to_timestemp_at:
  assumes len: "1000 \<le> length ls" and inc: "increasing (take 1000 ls)"
    and k: "k < 1000" and le: "ls ! k \<le> l"
    and above: "\<And>j. k < j \<Longrightarrow> j < 1000 \<Longrightarrow> l < ls ! j"
    and sigma: "log_of sigma = Finite l"
  shows "sigma_to_timestemp ls sigma =
     (let lo = min (int k) 998;
          w = clamped_weight (ls ! nat lo) (ls ! nat (lo + 1)) (Finite l)
      in Inr (llround ((1 - w) * of_int lo + w * of_int (lo + 1))))"
proof -
  have "max_element (dists_fill 0 (map (dist_indicator (Finite l)) (take 1000 ls))) = k"
  proof (rule max_element_dists[OF inc])
    show "k < length (take 1000 ls)" using len k by simp
    show "take 1000 ls ! k \<le> l" using k le by simp
    show "\<And>j. k < j \<Longrightarrow> j < length (take 1000 ls) \<Longrightarrow> l < take 1000 ls ! j"
      using above by simp
  qed
  then show ?thesis
    unfolding sigma_to_timestemp_unfold[OF len] sigma by simp
qed

lemma increasing_neighbours:
  assumes "increasing (take 1000 ls)" "1000 \<le> length ls" "i < j" "j < 1000"
  shows "ls ! i < ls ! j"
proof -
  have "take 1000 ls ! i < take 1000 ls ! j"
    using assms unfolding increasing_def by simp
  then show ?thesis using assms by simp
qed

lemma sigma_to_timestemp_aligned:
  assumes len: "1000 \<le> length ls" and inc: "increasing (take 1000 ls)" and k: "k < 1000"
  shows "sigma_to_timestemp ls (exp (ls ! k)) = Inr (int k)"
proof -
  have sigma: "log_of (exp (ls ! k)) = Finite (ls ! k)" by (simp add: log_of_def)
  have above: "\<And>j. k < j \<Longrightarrow> j < 1000 \<Longrightarrow> ls ! k < ls ! j"
    using increasing_neighbours[OF inc len] by simp
  note unf = sigma_to_timestemp_at[OF len inc k order_refl above sigma]
  show ?thesis
  proof (cases "k = 999")
    case True
    have "ls ! 998 < ls ! 999" using increasing_neighbours[OF inc len, of 998 999] by simp
    then have "clamped_weight (ls ! 998) (ls ! 999) (Finite (ls ! 999)) = 1"
      by (simp add: clamped_weight_def)
    then show ?thesis using unf True by (simp add: llround_def)
  next
    case False
    then have k': "k \<le> 998" using k by simp
    have "ls ! k < ls ! Suc k" using increasing_neighbours[OF inc len, of k "Suc k"] k' by simp
    then have "clamped_weight (ls ! k) (ls ! Suc k) (Finite (ls ! k)) = 0"
      by (simp add: clamped_weight_def)
    then show ?thesis using unf k' by (simp add: llround_def nat_add_distrib)
  qed
qed

lemma sigma_to_timestemp_low:
  assumes len: "1000 \<le> length ls" and inc: "increasing (take 1000 ls)"
    and sigma: "0 < sigma" "sigma \<le> exp (ls ! 0)"
  shows "sigma_to_timestemp ls sigma = Inr 0"
proof (cases "sigma = exp (ls ! 0)")
  case True
  then show ?thesis using sigma_to_timestemp_aligned[OF len inc, of 0] by simp
next
  case False
  then have "sigma < exp (ls ! 0)" using sigma by simp
  then have l: "ln sigma < ls ! 0" using sigma(1) by (metis exp_less_cancel_iff exp_ln)
  have ls: "log_of sigma = Finite (ln sigma)" using sigma(1) by (simp add: log_of_def)
  have below: "ln sigma < take 1000 ls ! j" if "j < length (take 1000 ls)" for j
  proof (cases "j = 0")
    case True
    then show ?thesis using l that by simp
  next
    case False
    then have "ls ! 0 < ls ! j" using increasing_neighbours[OF inc len, of 0 j] that by simp
    then show ?thesis using l that by simp
  qed
  have "take 1000 ls \<noteq> []" using len by auto
  then have m: "max_element (dists_fill 0 (map (dist_indicator (Finite (ln sigma))) (take 1000 ls))) = 0"
    using below by (rule max_element_dists_below)
  have lt: "ls ! 0 < ls ! 1" using increasing_neighbours[OF inc len, of 0 1] by simp
  have "(ls ! 0 - ln sigma) / (ls ! 0 - ls ! 1) < 0"
    using l lt by (simp add: divide_less_0_iff)
  then have "clamped_weight (ls ! 0) (ls ! 1) (Finite (ln sigma)) = 0"
    using lt by (simp add: clamped_weight_def)
  then show ?thesis
    unfolding sigma_to_timestemp_unfold[OF len] ls m by (simp add: llround_def)
qed

lemma sigma_to_timestemp_high:
  assumes len: "1000 \<le> length ls" and inc: "increasing (take 1000 ls)"
    and sigma: "exp (ls ! 999) \<le> sigma"
  shows "sigma_to_timestemp ls sigma = Inr 999"
proof -
  have pos: "0 < sigma" using sigma by (smt (verit) exp_gt_zero)
  have l: "ls ! 999 \<le> ln sigma" using sigma pos by (metis exp_le_cancel_iff exp_ln)
  have ls: "log_of sigma = Finite (ln sigma)" using pos by (simp add: log_of_def)
  note unf = sigma_to_timestemp_at[OF len inc _ l _ ls, simplified]
  have lt: "ls ! 998 < ls ! 999" using increasing_neighbours[OF inc len, of 998 999] by simp
  have "1 \<le> (ls ! 998 - ln sigma) / (ls ! 998 - ls ! 999)"
    using l lt by (simp add: field_simps)
  then have "clamped_weight (ls ! 998) (ls ! 999) (Finite (ln sigma)) = 1"
    using lt by (simp add: clamped_weight_def)
  then show ?thesis using unf by (simp add: llround_def)
qed

text \<open>
  Claim C6. On the default table of 1000 entries, \<open>sigma_to_timestemp\<close> maps the sigma
  of each entry \<open>k\<close> back to the timestep \<open>k\<close>; a positive sigma at or below the first
  entry's goes to 0, a sigma at or above the last entry's goes to 999, and every
  \<open>sigma\<close> whatever gets a timestep.
\<close>

theorem C6_timestep_of_table_sigma:
  "\<exists>tbl. snd default_log_sigma_vec = Inr tbl \<and> length tbl = 1000
     \<and> (\<forall>k < 1000. sigma_to_timestemp tbl (exp (tbl ! k)) = Inr (int k))
     \<and> (\<forall>sigma. 0 < sigma \<and> sigma \<le> exp (tbl ! 0) \<longrightarrow> sigma_to_timestemp tbl sigma = Inr 0)
     \<and> (\<forall>sigma. exp (tbl ! 999) \<le> sigma \<longrightarrow> sigma_to_timestemp tbl sigma = Inr 999)
     \<and> (\<forall>sigma. \<exists>t. sigma_to_timestemp tbl sigma = Inr t)"
proof -
  from default_table obtain tbl where
    t: "default_log_sigma_vec = ([], Inr tbl)" "length tbl = 1000" "increasing tbl"
    by blast
  have len: "1000 \<le> length tbl" using t(2) by simp
  have inc: "increasing (take 1000 tbl)" using t(3) by (rule increasing_take)
  have "\<forall>k < 1000. sigma_to_timestemp tbl (exp (tbl ! k)) = Inr (int k)"
    using sigma_to_timestemp_aligned[OF len inc] by blast
  moreover have "\<forall>sigma. 0 < sigma \<and> sigma \<le> exp (tbl ! 0)
                   \<longrightarrow> sigma_to_timestemp tbl sigma = Inr 0"
    using sigma_to_timestemp_low[OF len inc] by blast
  moreover have "\<forall>sigma. exp (tbl ! 999) \<le> sigma \<longrightarrow> sigma_to_timestemp tbl sigma = Inr 999"
    using sigma_to_timestemp_high[OF len inc] by blast
  moreover have "\<forall>sigma. \<exists>t. sigma_to_timestemp tbl sigma = Inr t"
    using sigma_to_timestemp_range[OF len] by blast
  moreover have "snd default_log_sigma_vec = Inr tbl" by (simp add: t(1))
  ultimately show ?thesis using t(2) by blast
qed

theorem C6_timestep_of_table_sigma_witness:
  "\<exists>tbl. snd default_log_sigma_vec = Inr tbl
     \<and> sigma_to_timestemp tbl (exp (tbl ! 0)) = Inr 0
     \<and> sigma_to_timestemp tbl (exp (tbl ! 500)) = Inr 500
     \<and> sigma_to_timestemp tbl (exp (tbl ! 999)) = Inr 999
     \<and> sigma_to_timestemp tbl (exp (tbl ! 999) + 1) = Inr 999"
proof -
  from C6_timestep_of_table_sigma obtain tbl where
    t: "snd default_log_sigma_vec = Inr tbl"
      "\<forall>k < 1000. sigma_to_timestemp tbl (exp (tbl ! k)) = Inr (int k)"
      "\<forall>sigma. exp (tbl ! 999) \<le> sigma \<longrightarrow> sigma_to_timestemp tbl sigma = Inr 999"
    by blast
  have "sigma_to_timestemp tbl (exp (tbl ! 0)) = Inr 0"
    "sigma_to_timestemp tbl (exp (tbl ! 500)) = Inr 500"
    "sigma_to_timestemp tbl (exp (tbl ! 999)) = Inr 999"
    using t(2) by simp_all
  moreover have "sigma_to_timestemp tbl (exp (tbl ! 999) + 1) = Inr 999"
    using t(3) by simp
  ultimately show ?thesis using t(1) by blast
qed

section \<open>The multistep coefficients\<close>

lemma lms_derivative_order1: "lms_derivative_function tau (Suc 0) 0 sigma_vec t = Inr 1"
  by (simp add: lms_derivative_function_def)

lemma trapezoidal_const:
  assumes "\<And>x. f x = Inr c" "0 < tol" "2 \<le> n"
  shows "trapezoidal f a b tol n = Inr (c * (b - a))"
proof -
  obtain m where n: "n = Suc (Suc m)"
    using \<open>2 \<le> n\<close> by (metis Suc_le_D numeral_2_eq_2 Suc_le_mono)
  show ?thesis
    using assms(1,2) unfolding n
    by (simp add: trapezoidal_def refinement_points_def Let_def field_simps)
qed

lemma lms_coeff_first:
  "i + 1 < length sigma \<Longrightarrow> lms_coeff sigma 1 i 0 = Inr (sigma ! (i+1) - sigma ! i)"
  using trapezoidal_const[of "\<lambda>tau. lms_derivative_function tau (Suc 0) 0 sigma i" 1 "1/10000" 100 "sigma ! i" "sigma ! (i + 1)"]
  by (simp add: lms_coeff_def vec_at_def lms_derivative_order1 nat_add_distrib)

lemma lms_coeffs_first:
  "i + 1 < length sigma \<Longrightarrow> lms_coeffs sigma 1 i = Inr [sigma ! (i + 1) - sigma ! i]"
  using lms_coeff_first[of i sigma] by (simp add: lms_coeffs_def)

text \<open>
  Claim C7. With order 1 the basis function is the constant 1 (its product runs over
  no factor), and the adaptive trapezoid rule over \<open>[sigma[i], sigma[i + 1]]\<close> returns
  exactly \<open>sigma[i + 1] - sigma[i]\<close>: the solver yields this one coefficient, at every
  step \<open>i\<close> of the schedule.
\<close>

theorem C7_first_order_coefficient:
  assumes "i + 1 < length sigma"
  shows "lms_derivative_function tau 1 0 sigma i = Inr 1
       \<and> trapezoidal (\<lambda>tau. lms_derivative_function tau 1 0 sigma i)
           (sigma ! i) (sigma ! (i + 1)) (1 / 10000) 100 = Inr (sigma ! (i + 1) - sigma ! i)
       \<and> lms_coeffs sigma 1 i = Inr [sigma ! (i + 1) - sigma ! i]"
  using assms lms_coeffs_first[OF assms] lms_coeff_first[OF assms]
  by (simp add: lms_derivative_order1 lms_coeff_def vec_at_def nat_add_distrib)

theorem C7_first_order_coefficient_witness:
  "lms_coeffs [3, 2, 0] 1 0 = Inr [2 - 3] \<and> lms_coeffs [3, 2, 0] 1 1 = Inr [0 - 2]"
  using C7_first_order_coefficient[of 0 "[3, 2, 0]"] C7_first_order_coefficient[of 1 "[3, 2, 0]"]
  by simp

subsection \<open>The trapezoid rule on a basis polynomial of degree at most three\<close>

text \<open>
  With an integrand \<open>p\<close> that is defined everywhere, the estimate of \<^verbatim>\<open>trapezoidal\<close> at
  the head of its iteration \<open>k\<close> is the composite trapezoid rule on \<open>2^(k - 1)\<close> intervals,
  and the iteration refines it to \<open>2^k\<close> intervals. For a polynomial of degree at most
  three, \<open>c0 + c1 x + c2 x^2 + c3 x^3\<close>, two successive estimates differ by
  \<open>\<bar>b - a\<bar>^3 * \<bar>2 c2 + 3 c3 (a + b)\<bar> / 4^(k + 1)\<close>. If that is below the tolerance at
  \<open>k = 31\<close>, the loop returns before the shift \<^verbatim>\<open>1 << (k - 1)\<close> leaves the \<^verbatim>\<open>int\<close>.
\<close>

lemma trapezoidal_sum_append:
  "trapezoidal_sum f a h (xs @ ys) acc
     = (case trapezoidal_sum f a h xs acc of Inl e \<Rightarrow> Inl e | Inr s \<Rightarrow> trapezoidal_sum f a h ys s)"
  by (induction xs arbitrary: acc) (simp_all split: sum.splits)

lemma trapezoidal_sum_eq:
  assumes "\<And>x. f x = Inr (p x)"
  shows "trapezoidal_sum f a h [1 ..< Suc n] acc
           = Inr (acc + (\<Sum>j<n. p (a + (2 * real j + 1) * h)))"
proof (induction n)
  case 0
  then show ?case by simp
next
  case (Suc n)
  have "[1 ..< Suc (Suc n)] = [1 ..< Suc n] @ [Suc n]" by simp
  then have "trapezoidal_sum f a h [1 ..< Suc (Suc n)] acc
      = trapezoidal_sum f a h [Suc n] (acc + (\<Sum>j<n. p (a + (2 * real j + 1) * h)))"
    by (simp only: trapezoidal_sum_append Suc.IH sum.case)
  also have "\<dots> = Inr (acc + (\<Sum>j<n. p (a + (2 * real j + 1) * h))
                       + p (a + (2 * real (Suc n) - 1) * h))"
    by (simp add: assms)
  also have "2 * real (Suc n) - 1 = 2 * real n + 1" by simp
  finally show ?case by (simp add: add.assoc)
qed

lemma composite_trapezoid_refine:
  "composite_trapezoid p a (h / 2) (2 * N)
     = (1 / 2) * composite_trapezoid p a h N + h * (\<Sum>j<N. p (a + (2 * real j + 1) * h))"
proof (induction N)
  case 0
  then show ?case by (simp add: composite_trapezoid_def)
next
  case (Suc N)
  have e: "2 * Suc N = Suc (Suc (2 * N))" by simp
  have t1: "a + 2 * real (2 * N) * (h / 2) = a + 2 * real N * h" by simp
  have t2: "a + 2 * real (Suc (2 * N)) * (h / 2) = a + (2 * real N + 1) * h"
    by (simp add: algebra_simps)
  have t3: "a + 2 * real (Suc (Suc (2 * N))) * (h / 2) = a + 2 * real (Suc N) * h"
    by (simp add: algebra_simps)
  have r: "composite_trapezoid p a (h / 2) (2 * Suc N)
      = composite_trapezoid p a (h / 2) (2 * N)
        + (h / 2) * (p (a + 2 * real N * h) + p (a + (2 * real N + 1) * h))
        + (h / 2) * (p (a + (2 * real N + 1) * h) + p (a + 2 * real (Suc N) * h))"
    unfolding e composite_trapezoid_def sum.lessThan_Suc t1 t2 t3 by simp
  have l: "composite_trapezoid p a h (Suc N)
      = composite_trapezoid p a h N + h * (p (a + 2 * real N * h) + p (a + 2 * real (Suc N) * h))"
    unfolding composite_trapezoid_def by simp
  show ?case
    unfolding r l Suc.IH by (simp add: algebra_simps)
qed

lemma cubic_second_difference:
  fixes c0 c1 c2 c3 :: real
  assumes "\<And>x. p x = c0 + c1 * x + c2 * x ^ 2 + c3 * x ^ 3"
  shows "p (m - h) - 2 * p m + p (m + h) = h ^ 2 * (2 * c2 + 6 * c3 * m)"
  unfolding assms by (simp add: power2_eq_square power3_eq_cube algebra_simps)

lemma refinement_difference:
  fixes c0 c1 c2 c3 :: real
  assumes p: "\<And>x. p x = c0 + c1 * x + c2 * x ^ 2 + c3 * x ^ 3"
  shows "h * (\<Sum>j<N. p (a + (2 * real j + 1) * h)) - (1 / 2) * composite_trapezoid p a h N
           = - (h ^ 3 / 2) * (real N * (2 * c2 + 6 * c3 * a) + 6 * c3 * h * (real N) ^ 2)"
proof (induction N)
  case 0
  then show ?case by (simp add: composite_trapezoid_def)
next
  case (Suc N)
  define m where "m = a + (2 * real N + 1) * h"
  have lr: "a + 2 * real N * h = m - h" "a + 2 * real (Suc N) * h = m + h"
    by (simp_all add: m_def algebra_simps)
  have d: "p (m - h) - 2 * p m + p (m + h) = h ^ 2 * (2 * c2 + 6 * c3 * m)"
    using p by (rule cubic_second_difference)
  have step: "h * p m - (1 / 2) * (h * (p (m - h) + p (m + h)))
      = - (h ^ 3 / 2) * (2 * c2 + 6 * c3 * m)"
  proof -
    have "h * p m - (1 / 2) * (h * (p (m - h) + p (m + h)))
        = - (h / 2) * (p (m - h) - 2 * p m + p (m + h))"
      by (simp add: algebra_simps)
    also have "\<dots> = - (h / 2) * (h ^ 2 * (2 * c2 + 6 * c3 * m))" by (simp only: d)
    also have "\<dots> = - (h ^ 3 / 2) * (2 * c2 + 6 * c3 * m)"
      by (simp add: power2_eq_square power3_eq_cube)
    finally show ?thesis .
  qed
  have inc: "real (Suc N) * (2 * c2 + 6 * c3 * a) + 6 * c3 * h * (real (Suc N)) ^ 2
      = (real N * (2 * c2 + 6 * c3 * a) + 6 * c3 * h * (real N) ^ 2) + (2 * c2 + 6 * c3 * m)"
    by (simp add: m_def power2_eq_square algebra_simps)
  have "h * (\<Sum>j<Suc N. p (a + (2 * real j + 1) * h)) - (1 / 2) * composite_trapezoid p a h (Suc N)
      = (h * (\<Sum>j<N. p (a + (2 * real j + 1) * h)) - (1 / 2) * composite_trapezoid p a h N)
        + (h * p m - (1 / 2) * (h * (p (m - h) + p (m + h))))"
    unfolding composite_trapezoid_def sum.lessThan_Suc lr m_def[symmetric]
    by (simp add: algebra_simps)
  also have "\<dots> = - (h ^ 3 / 2) * (real N * (2 * c2 + 6 * c3 * a) + 6 * c3 * h * (real N) ^ 2)
        + - (h ^ 3 / 2) * (2 * c2 + 6 * c3 * m)"
    by (simp only: Suc.IH step)
  also have "\<dots> = - (h ^ 3 / 2) * (real (Suc N) * (2 * c2 + 6 * c3 * a)
        + 6 * c3 * h * (real (Suc N)) ^ 2)"
    unfolding inc by (simp only: distrib_left)
  finally show ?case .
qed

lemma refinement_gap:
  fixes c0 c1 c2 c3 :: real
  assumes p: "\<And>x. p x = c0 + c1 * x + c2 * x ^ 2 + c3 * x ^ 3"
    and h: "h = (b - a) / 2 ^ Suc k" and N: "N = 2 ^ k"
  shows "\<bar>((1 / 2) * composite_trapezoid p a h N + h * (\<Sum>j<N. p (a + (2 * real j + 1) * h)))
            - composite_trapezoid p a h N\<bar>
           = \<bar>b - a\<bar> ^ 3 * \<bar>2 * c2 + 3 * c3 * (a + b)\<bar> / 4 ^ (k + 2)"
proof -
  define X :: real where "X = 2 ^ k"
  have X: "0 < X" by (simp add: X_def)
  have rN: "real N = X" by (simp add: N X_def)
  have hX: "h = (b - a) / (2 * X)" by (simp add: h X_def)
  have four: "(4::real) ^ (k + 2) = 16 * X ^ 2"
  proof -
    have "(4::real) ^ k = (2 ^ 2) ^ k" by simp
    also have "\<dots> = (2 ^ k) ^ 2" by (simp only: power_mult[symmetric] mult.commute)
    finally show ?thesis by (simp add: X_def)
  qed
  have "((1 / 2) * composite_trapezoid p a h N + h * (\<Sum>j<N. p (a + (2 * real j + 1) * h)))
            - composite_trapezoid p a h N
      = h * (\<Sum>j<N. p (a + (2 * real j + 1) * h)) - (1 / 2) * composite_trapezoid p a h N"
    by simp
  also have "\<dots> = - (h ^ 3 / 2) * (real N * (2 * c2 + 6 * c3 * a) + 6 * c3 * h * (real N) ^ 2)"
    using p by (rule refinement_difference)
  also have "\<dots> = - ((b - a) ^ 3 / (16 * X ^ 2)) * (2 * c2 + 3 * c3 * (a + b))"
    unfolding rN hX using X
    by (simp add: field_simps power2_eq_square power3_eq_cube)
  finally have "\<bar>((1 / 2) * composite_trapezoid p a h N + h * (\<Sum>j<N. p (a + (2 * real j + 1) * h)))
            - composite_trapezoid p a h N\<bar>
      = \<bar>(b - a) ^ 3 / (16 * X ^ 2)\<bar> * \<bar>2 * c2 + 3 * c3 * (a + b)\<bar>"
    by (simp only: abs_mult abs_minus_cancel)
  also have "\<bar>(b - a) ^ 3 / (16 * X ^ 2)\<bar> = \<bar>b - a\<bar> ^ 3 / (16 * X ^ 2)"
    using X by (simp add: power_abs)
  finally show ?thesis unfolding four by simp
qed

lemma refinement_points_small: "k \<le> 30 \<Longrightarrow> refinement_points (Suc k) = Inr (2 ^ k)"
  by (simp add: refinement_points_def)

lemma trapezoidal_loop_cubic:
  fixes c0 c1 c2 c3 :: real
  assumes f: "\<And>x. f x = Inr (p x)"
    and p: "\<And>x. p x = c0 + c1 * x + c2 * x ^ 2 + c3 * x ^ 3"
    and small: "\<bar>b - a\<bar> ^ 3 * \<bar>2 * c2 + 3 * c3 * (a + b)\<bar> < tol * 4 ^ 32"
  shows "k \<le> 30 \<Longrightarrow> 30 - k = m \<Longrightarrow> 30 - k < left \<Longrightarrow>
         \<exists>v. trapezoidal_loop f a tol left (Suc k) ((b - a) / 2 ^ Suc k)
                (composite_trapezoid p a ((b - a) / 2 ^ Suc k) (2 ^ k)) = Inr v"
proof (induction m arbitrary: k left)
  case 0
  then have k: "k = 30" by simp
  from 0 obtain l where left: "left = Suc l" by (cases left) simp_all
  define h where "h = (b - a) / 2 ^ Suc k"
  define I0 where "I0 = composite_trapezoid p a h (2 ^ k)"
  define s where "s = (\<Sum>j<(2::nat) ^ k. p (a + (2 * real j + 1) * h))"
  have gap: "\<bar>((1 / 2) * I0 + h * s) - I0\<bar>
               = \<bar>b - a\<bar> ^ 3 * \<bar>2 * c2 + 3 * c3 * (a + b)\<bar> / 4 ^ (k + 2)"
    unfolding I0_def s_def using p h_def refl by (rule refinement_gap)
  have "\<bar>b - a\<bar> ^ 3 * \<bar>2 * c2 + 3 * c3 * (a + b)\<bar> / 4 ^ 32 < tol"
    using small by (simp add: field_simps)
  then have lt: "\<bar>((1 / 2) * I0 + h * s) - I0\<bar> < tol"
    unfolding gap k by simp
  have sum: "trapezoidal_sum f a h [1 ..< Suc (2 ^ k)] 0 = Inr s"
    unfolding s_def using trapezoidal_sum_eq[of f p a h "2 ^ k" 0, OF f] by simp
  have "trapezoidal_loop f a tol (Suc l) (Suc k) h I0 = Inr ((1 / 2) * I0 + h * s)"
    unfolding trapezoidal_loop.simps refinement_points_small[OF \<open>k \<le> 30\<close>] sum.case sum Let_def
    using lt k by simp
  then show ?case unfolding left h_def I0_def by blast
next
  case (Suc m)
  then have k: "k < 30" "Suc k \<le> 30" "30 - Suc k = m" by simp_all
  from Suc obtain l where left: "left = Suc l" by (cases left) simp_all
  have l: "30 - Suc k < l" using Suc.prems left by simp
  define h where "h = (b - a) / 2 ^ Suc k"
  define I0 where "I0 = composite_trapezoid p a h (2 ^ k)"
  define s where "s = (\<Sum>j<(2::nat) ^ k. p (a + (2 * real j + 1) * h))"
  have sum: "trapezoidal_sum f a h [1 ..< Suc (2 ^ k)] 0 = Inr s"
    unfolding s_def using trapezoidal_sum_eq[of f p a h "2 ^ k" 0, OF f] by simp
  have h2: "h / 2 = (b - a) / 2 ^ Suc (Suc k)" by (simp add: h_def)
  have I1: "(1 / 2) * I0 + h * s = composite_trapezoid p a ((b - a) / 2 ^ Suc (Suc k)) (2 ^ Suc k)"
    unfolding I0_def s_def composite_trapezoid_refine[symmetric] h2 by simp
  have step: "trapezoidal_loop f a tol (Suc l) (Suc k) h I0
      = (if 1 < Suc k \<and> \<bar>((1 / 2) * I0 + h * s) - I0\<bar> < tol then Inr ((1 / 2) * I0 + h * s)
         else trapezoidal_loop f a tol l (Suc (Suc k)) (h / 2) ((1 / 2) * I0 + h * s))"
    unfolding trapezoidal_loop.simps refinement_points_small[OF \<open>k \<le> 30\<close>] sum.case sum Let_def
    by simp
  from Suc.IH[OF k(2) k(3) l]
  obtain v where "trapezoidal_loop f a tol l (Suc (Suc k)) (h / 2) ((1 / 2) * I0 + h * s) = Inr v"
    unfolding h2 I1 by blast
  then have "\<exists>v. trapezoidal_loop f a tol (Suc l) (Suc k) h I0 = Inr v"
    unfolding step by simp
  then show ?case unfolding left h_def I0_def .
qed

lemma trapezoidal_cubic:
  fixes c0 c1 c2 c3 :: real
  assumes f: "\<And>x. f x = Inr (p x)"
    and p: "\<And>x. p x = c0 + c1 * x + c2 * x ^ 2 + c3 * x ^ 3"
    and small: "\<bar>b - a\<bar> ^ 3 * \<bar>2 * c2 + 3 * c3 * (a + b)\<bar> < tol * 4 ^ 32"
  shows "\<exists>v. trapezoidal f a b tol 100 = Inr v"
proof -
  have e: "composite_trapezoid p a ((b - a) / 2 ^ Suc 0) (2 ^ 0) = (p a + p b) * ((b - a) / 2)"
  proof -
    have "a + 2 * ((b - a) / 2) = b" by (simp add: field_simps)
    then show ?thesis by (simp add: composite_trapezoid_def mult.commute)
  qed
  have "\<exists>v. trapezoidal_loop f a tol 100 (Suc 0) ((b - a) / 2 ^ Suc 0)
                (composite_trapezoid p a ((b - a) / 2 ^ Suc 0) (2 ^ 0)) = Inr v"
    using f p small by (rule trapezoidal_loop_cubic) simp_all
  then have "\<exists>v. trapezoidal_loop f a tol 100 1 ((b - a) / 2) ((p a + p b) * ((b - a) / 2)) = Inr v"
    unfolding e by simp
  then show ?thesis
    unfolding trapezoidal_def Let_def f sum.case .
qed

text \<open>
  The integrand of a coefficient is a product of at most three factors
  \<open>(tau - u) / d\<close>. When the nodes \<open>u\<close> and the interval lie between 0 and \<open>B\<close> and no
  denominator is smaller than the interval is long, the difference above is at most
  \<open>6 B / 4^(k + 1)\<close>. A schedule that starts as a geometric sequence is of this kind.
\<close>

lemma lms_derivative_loop_eq:
  assumes "i < length sigma" "c \<le> i" "\<And>k. k \<in> set ks \<Longrightarrow> k \<le> i"
    and "\<And>k. k \<in> set ks \<Longrightarrow> k \<noteq> c \<Longrightarrow> sigma ! (i - c) \<noteq> sigma ! (i - k)"
  shows "lms_derivative_loop tau c sigma i ks product
     = Inr (product * prod_list (map (\<lambda>k. (tau - sigma ! (i - k)) / (sigma ! (i - c) - sigma ! (i - k)))
                                    (filter (\<lambda>k. k \<noteq> c) ks)))"
  using assms(3,4)
proof (induction ks arbitrary: product)
  case Nil
  then show ?case by simp
next
  case (Cons k ks)
  have ki: "k \<le> i" using Cons.prems(1) by simp
  have rk: "vec_at sigma (int i - int k) = Inr (sigma ! (i - k))"
    using vec_at_nat[of "i - k" sigma] assms(1) ki by simp
  have rc: "vec_at sigma (int i - int c) = Inr (sigma ! (i - c))"
    using vec_at_nat[of "i - c" sigma] assms(1,2) by simp
  have IH: "\<And>pr. lms_derivative_loop tau c sigma i ks pr
     = Inr (pr * prod_list (map (\<lambda>k. (tau - sigma ! (i - k)) / (sigma ! (i - c) - sigma ! (i - k)))
                                    (filter (\<lambda>k. k \<noteq> c) ks)))"
    using Cons.IH Cons.prems by simp
  show ?case
  proof (cases "c = k")
    case True
    then show ?thesis using IH by simp
  next
    case False
    then have "sigma ! (i - c) \<noteq> sigma ! (i - k)" using Cons.prems(2)[of k] by simp
    then show ?thesis using False IH rk rc by (simp add: mult.assoc)
  qed
qed

lemma product_cubic:
  fixes fs :: "(real \<times> real) list" and a b B g :: real
  assumes len: "length fs \<le> 3"
    and fs: "\<And>u d. (u, d) \<in> set fs \<Longrightarrow> 0 \<le> u \<and> u \<le> B \<and> g \<le> \<bar>d\<bar>"
    and g: "0 < g" "\<bar>b - a\<bar> \<le> g"
    and ab: "0 \<le> a" "a \<le> B" "0 \<le> b" "b \<le> B"
  shows "\<exists>c0 c1 c2 c3. (\<forall>tau. prod_list (map (\<lambda>(u, d). (tau - u) / d) fs)
                                  = c0 + c1 * tau + c2 * tau ^ 2 + c3 * tau ^ 3)
           \<and> \<bar>b - a\<bar> ^ 3 * \<bar>2 * c2 + 3 * c3 * (a + b)\<bar> \<le> 6 * B"
proof -
  have B: "0 \<le> B" using ab by linarith
  have bB: "\<bar>b - a\<bar> \<le> B" using ab by linarith
  consider "fs = []" | x where "fs = [x]" | x y where "fs = [x, y]" | x y z where "fs = [x, y, z]"
  proof (cases fs)
    case Nil
    then show ?thesis using that by blast
  next
    case c1: (Cons x xs)
    show ?thesis
    proof (cases xs)
      case Nil
      then show ?thesis using that c1 by blast
    next
      case c2: (Cons y ys)
      show ?thesis
      proof (cases ys)
        case Nil
        then show ?thesis using that c1 c2 by blast
      next
        case c3: (Cons z zs)
        then have "zs = []" using len c1 c2 by simp
        then show ?thesis using that c1 c2 c3 by blast
      qed
    qed
  qed
  then show ?thesis
  proof cases
    case 1
    have "(\<forall>tau::real. prod_list (map (\<lambda>(u, d). (tau - u) / d) fs) = 1 + 0 * tau + 0 * tau ^ 2 + 0 * tau ^ 3)
        \<and> \<bar>b - a\<bar> ^ 3 * \<bar>2 * 0 + 3 * 0 * (a + b)\<bar> \<le> 6 * B"
      using 1 B by simp
    then show ?thesis by blast
  next
    case 2
    obtain u d where x: "x = (u, d)" by (cases x)
    have d: "d \<noteq> 0" using fs[of u d] 2 x g by auto
    have "(\<forall>tau::real. prod_list (map (\<lambda>(u, d). (tau - u) / d) fs)
              = (- u / d) + (1 / d) * tau + 0 * tau ^ 2 + 0 * tau ^ 3)
        \<and> \<bar>b - a\<bar> ^ 3 * \<bar>2 * 0 + 3 * 0 * (a + b)\<bar> \<le> 6 * B"
      using 2 x B d by (simp add: field_simps)
    then show ?thesis by blast
  next
    case 3
    obtain u1 d1 where x: "x = (u1, d1)" by (cases x)
    obtain u2 d2 where y: "y = (u2, d2)" by (cases y)
    have d1: "g \<le> \<bar>d1\<bar>" using fs[of u1 d1] 3 x by simp
    have d2: "g \<le> \<bar>d2\<bar>" using fs[of u2 d2] 3 y by simp
    have nz: "d1 \<noteq> 0" "d2 \<noteq> 0" using d1 d2 g by auto
    have poly: "\<forall>tau::real. prod_list (map (\<lambda>(u, d). (tau - u) / d) fs)
              = (u1 * u2 / (d1 * d2)) + (- (u1 + u2) / (d1 * d2)) * tau + (1 / (d1 * d2)) * tau ^ 2
                + 0 * tau ^ 3"
      using 3 x y nz by (simp add: field_simps power2_eq_square)
    have D: "\<bar>b - a\<bar> * \<bar>b - a\<bar> \<le> \<bar>d1\<bar> * \<bar>d2\<bar>"
      by (rule mult_mono) (use d1 d2 g in linarith)+
    have Dpos: "0 < \<bar>d1\<bar> * \<bar>d2\<bar>" using nz by simp
    have "\<bar>b - a\<bar> ^ 3 * \<bar>2 * (1 / (d1 * d2)) + 3 * 0 * (a + b)\<bar>
            = 2 * \<bar>b - a\<bar> * ((\<bar>b - a\<bar> * \<bar>b - a\<bar>) / (\<bar>d1\<bar> * \<bar>d2\<bar>))"
      by (simp add: power3_eq_cube abs_mult)
    also have "\<dots> \<le> 2 * \<bar>b - a\<bar> * 1"
      by (rule mult_left_mono) (use D Dpos in simp_all)
    also have "\<dots> \<le> 6 * B" using bB B by simp
    finally show ?thesis using poly by blast
  next
    case 4
    obtain u1 d1 where x: "x = (u1, d1)" by (cases x)
    obtain u2 d2 where y: "y = (u2, d2)" by (cases y)
    obtain u3 d3 where z: "z = (u3, d3)" by (cases z)
    have d1: "g \<le> \<bar>d1\<bar>" and u1: "0 \<le> u1" "u1 \<le> B" using fs[of u1 d1] 4 x by simp_all
    have d2: "g \<le> \<bar>d2\<bar>" and u2: "0 \<le> u2" "u2 \<le> B" using fs[of u2 d2] 4 y by simp_all
    have d3: "g \<le> \<bar>d3\<bar>" and u3: "0 \<le> u3" "u3 \<le> B" using fs[of u3 d3] 4 z by simp_all
    have nz: "d1 \<noteq> 0" "d2 \<noteq> 0" "d3 \<noteq> 0" using d1 d2 d3 g by auto
    define D where "D = d1 * d2 * d3"
    have Dnz: "D \<noteq> 0" using nz by (simp add: D_def)
    have prod: "\<And>tau::real. prod_list (map (\<lambda>(u, d). (tau - u) / d) fs)
         = (tau - u1) * (tau - u2) * (tau - u3) / D"
      using 4 x y z by (simp add: D_def)
    have poly: "\<forall>tau::real. prod_list (map (\<lambda>(u, d). (tau - u) / d) fs)
              = (- (u1 * u2 * u3) / D) + ((u1 * u2 + u1 * u3 + u2 * u3) / D) * tau
                + (- (u1 + u2 + u3) / D) * tau ^ 2 + (1 / D) * tau ^ 3"
      unfolding prod using Dnz
      by (simp add: field_simps power2_eq_square power3_eq_cube)
    have D2: "\<bar>b - a\<bar> * \<bar>b - a\<bar> \<le> \<bar>d1\<bar> * \<bar>d2\<bar>"
      by (rule mult_mono) (use d1 d2 g in linarith)+
    have D3: "\<bar>b - a\<bar> * \<bar>b - a\<bar> * \<bar>b - a\<bar> \<le> \<bar>d1\<bar> * \<bar>d2\<bar> * \<bar>d3\<bar>"
      by (rule mult_mono) (use D2 d3 g in simp_all)
    have Dabs: "\<bar>D\<bar> = \<bar>d1\<bar> * \<bar>d2\<bar> * \<bar>d3\<bar>" by (simp add: D_def abs_mult)
    have Dpos: "0 < \<bar>D\<bar>" using Dnz by simp
    have "3 * (a + b) - 2 * (u1 + u2 + u3) \<le> 6 * B"
      using ab u1 u2 u3 by simp
    moreover have "- (3 * (a + b) - 2 * (u1 + u2 + u3)) \<le> 6 * B"
      using ab u1 u2 u3 by simp
    ultimately have num: "\<bar>3 * (a + b) - 2 * (u1 + u2 + u3)\<bar> \<le> 6 * B"
      by (rule abs_leI)
    have "2 * (- (u1 + u2 + u3) / D) + 3 * (1 / D) * (a + b)
            = (3 * (a + b) - 2 * (u1 + u2 + u3)) / D"
      using Dnz by (simp add: field_simps)
    then have "\<bar>b - a\<bar> ^ 3 * \<bar>2 * (- (u1 + u2 + u3) / D) + 3 * (1 / D) * (a + b)\<bar>
            = \<bar>3 * (a + b) - 2 * (u1 + u2 + u3)\<bar> * ((\<bar>b - a\<bar> * \<bar>b - a\<bar> * \<bar>b - a\<bar>) / \<bar>D\<bar>)"
      by (simp add: power3_eq_cube)
    also have "\<dots> \<le> \<bar>3 * (a + b) - 2 * (u1 + u2 + u3)\<bar> * 1"
      by (rule mult_left_mono) (use D3 Dpos Dabs in simp_all)
    also have "\<dots> \<le> 6 * B" using num by simp
    finally show ?thesis using poly by blast
  qed
qed

lemma collect_all_Inr:
  "(\<And>x. x \<in> set xs \<Longrightarrow> \<exists>v. f x = Inr v) \<Longrightarrow> \<exists>vs. collect (map f xs) = Inr vs"
proof (induction xs)
  case Nil
  then show ?case by simp
next
  case (Cons x xs)
  obtain v where "f x = Inr v" using Cons.prems by auto
  moreover obtain vs where "collect (map f xs) = Inr vs" using Cons by auto
  ultimately show ?case by simp
qed

lemma filter_upt_except:
  assumes "c < n"
  shows "filter (\<lambda>k. k \<noteq> c) [0 ..< n] = [0 ..< c] @ [Suc c ..< n]"
proof -
  have "[0 ..< n] = [0 ..< c] @ c # [Suc c ..< n]"
  proof -
    have "[0 ..< n] = [0 ..< c] @ [c ..< n]"
      using assms upt_add_eq_append[of 0 c "n - c"] by simp
    also have "[c ..< n] = c # [Suc c ..< n]" using assms by (rule upt_conv_Cons)
    finally show ?thesis .
  qed
  moreover have "filter (\<lambda>k. k \<noteq> c) [0 ..< c] = [0 ..< c]" by (rule filter_True) simp
  moreover have "filter (\<lambda>k. k \<noteq> c) [Suc c ..< n] = [Suc c ..< n]" by (rule filter_True) simp
  ultimately show ?thesis by simp
qed

lemma geometric_gap:
  fixes B q :: real
  assumes q: "0 < q" "q < 1" and B: "0 < B" and jk: "j \<noteq> k" "j \<le> i" "k \<le> i"
  shows "B * q ^ i * (1 - q) \<le> \<bar>B * q ^ j - B * q ^ k\<bar>"
proof -
  have main: "B * q ^ i * (1 - q) \<le> B * q ^ m - B * q ^ n" if mn: "m < n" "n \<le> i" for m n
  proof -
    have q0: "0 \<le> q" "q \<le> 1" using q by simp_all
    have "Suc m \<le> n" using mn by simp
    then have "q ^ n \<le> q ^ Suc m" using q0 by (rule power_decreasing)
    then have "B * q ^ n \<le> B * q ^ Suc m" using B by simp
    then have 1: "B * q ^ m * (1 - q) \<le> B * q ^ m - B * q ^ n"
      by (simp add: right_diff_distrib mult.assoc mult.commute[of q])
    have "m \<le> i" using mn by simp
    then have "q ^ i \<le> q ^ m" using q0 by (rule power_decreasing)
    then have "B * q ^ i \<le> B * q ^ m" using B by simp
    moreover have "0 \<le> 1 - q" using q by simp
    ultimately have "B * q ^ i * (1 - q) \<le> B * q ^ m * (1 - q)" by (rule mult_right_mono)
    then show ?thesis using 1 by (rule order_trans)
  qed
  show ?thesis
  proof (cases "j < k")
    case True
    from main[OF this jk(3)] show ?thesis by simp
  next
    case False
    then have "k < j" using jk by simp
    from main[OF this jk(2)] show ?thesis by simp
  qed
qed

lemma lms_coeff_geometric:
  fixes B q :: real
  assumes order: "order \<le> 4" "order \<le> i + 1" "c < order"
    and len: "i + 1 < length sigma"
    and geo: "\<And>j. j \<le> i + 1 \<Longrightarrow> sigma ! j = B * q ^ j"
    and q: "0 < q" "q < 1" and B: "0 < B" "6 * B < 1 / 10000 * 4 ^ 32"
  shows "\<exists>v. lms_coeff sigma order i c = Inr v"
proof -
  define a where "a = sigma ! i"
  define b where "b = sigma ! (i + 1)"
  define g where "g = B * q ^ i * (1 - q)"
  define ks where "ks = filter (\<lambda>k. k \<noteq> c) [0 ..< order]"
  define fs where "fs = map (\<lambda>k. (sigma ! (i - k), sigma ! (i - c) - sigma ! (i - k))) ks"
  define p where "p = (\<lambda>tau. prod_list (map (\<lambda>(u, d). (tau - u) / d) fs))"
  have ra: "vec_at sigma (int i) = Inr a"
    unfolding a_def using len by (simp add: vec_at_nat)
  have "vec_at sigma (int (i + 1)) = Inr b"
    unfolding b_def using len by (intro vec_at_nat) simp
  then have rb: "vec_at sigma (int i + 1) = Inr b" by (simp add: add.commute)
  have unit: "0 \<le> B * q ^ n \<and> B * q ^ n \<le> B" for n
  proof -
    have "q ^ n \<le> 1" using q by (simp add: power_le_one)
    then have "B * q ^ n \<le> B * 1" using B by (intro mult_left_mono) simp_all
    then show ?thesis using q B by simp
  qed
  have a: "a = B * q ^ i" unfolding a_def by (rule geo) simp
  have b: "b = B * q ^ (i + 1)" unfolding b_def by (rule geo) simp
  have gpos: "0 < g" unfolding g_def using q B by simp
  have "a - b = g" unfolding a b g_def by (simp add: algebra_simps)
  then have ba: "\<bar>b - a\<bar> \<le> g" using gpos by simp
  have kset: "k < order \<and> k \<noteq> c" if "k \<in> set ks" for k
    using that by (simp add: ks_def)
  have ci: "c \<le> i" using order by simp
  have gap: "g \<le> \<bar>sigma ! (i - c) - sigma ! (i - k)\<bar>" if "k \<in> set ks" for k
  proof -
    have k: "k \<le> i" "k \<noteq> c" using kset[OF that] order by simp_all
    have "i - c \<noteq> i - k" using k ci by simp
    then have "g \<le> \<bar>B * q ^ (i - c) - B * q ^ (i - k)\<bar>"
      unfolding g_def using q B(1) by (intro geometric_gap) simp_all
    then show ?thesis using geo[of "i - c"] geo[of "i - k"] by simp
  qed
  have f: "lms_derivative_function tau order c sigma i = Inr (p tau)" for tau
  proof -
    have "lms_derivative_loop tau c sigma i [0 ..< order] 1
       = Inr (1 * prod_list (map (\<lambda>k. (tau - sigma ! (i - k)) / (sigma ! (i - c) - sigma ! (i - k)))
                                    (filter (\<lambda>k. k \<noteq> c) [0 ..< order])))"
    proof (rule lms_derivative_loop_eq)
      show "i < length sigma" using len by simp
      show "c \<le> i" by (rule ci)
      show "k \<le> i" if "k \<in> set [0 ..< order]" for k using that order by simp
      show "sigma ! (i - c) \<noteq> sigma ! (i - k)" if "k \<in> set [0 ..< order]" "k \<noteq> c" for k
      proof -
        have "k \<in> set ks" using that by (simp add: ks_def)
        from gap[OF this] gpos show ?thesis by auto
      qed
    qed
    then show ?thesis
      unfolding lms_derivative_function_def p_def fs_def ks_def
      by (simp add: comp_def)
  qed
  have lenfs: "length fs \<le> 3"
    unfolding fs_def ks_def filter_upt_except[OF order(3)] using order by simp
  have elems: "0 \<le> u \<and> u \<le> B \<and> g \<le> \<bar>d\<bar>" if "(u, d) \<in> set fs" for u d
  proof -
    from that obtain k where k: "k \<in> set ks" "u = sigma ! (i - k)"
        "d = sigma ! (i - c) - sigma ! (i - k)"
      unfolding fs_def by auto
    have "u = B * q ^ (i - k)" unfolding k(2) by (rule geo) simp
    then show ?thesis using unit[of "i - k"] gap[OF k(1)] k(3) by simp
  qed
  have ab: "0 \<le> a" "a \<le> B" "0 \<le> b" "b \<le> B"
    using unit[of i] unit[of "i + 1"] a b by simp_all
  from product_cubic[OF lenfs elems gpos ba ab]
  obtain c0 c1 c2 c3 where
    poly: "\<And>tau. p tau = c0 + c1 * tau + c2 * tau ^ 2 + c3 * tau ^ 3"
    and bound: "\<bar>b - a\<bar> ^ 3 * \<bar>2 * c2 + 3 * c3 * (a + b)\<bar> \<le> 6 * B"
    unfolding p_def by blast
  have small: "\<bar>b - a\<bar> ^ 3 * \<bar>2 * c2 + 3 * c3 * (a + b)\<bar> < 1 / 10000 * 4 ^ 32"
    using bound B(2) by (rule le_less_trans)
  have "\<exists>v. trapezoidal (\<lambda>tau. lms_derivative_function tau order c sigma i) a b (1 / 10000) 100
           = Inr v"
    using f poly small by (rule trapezoidal_cubic)
  then show ?thesis
    unfolding lms_coeff_def ra rb sum.case .
qed

lemma lms_coeffs_geometric:
  fixes B q :: real
  assumes len: "i + 1 < length sigma"
    and geo: "\<And>j. j \<le> i + 1 \<Longrightarrow> sigma ! j = B * q ^ j"
    and q: "0 < q" "q < 1" and B: "0 < B" "6 * B < 1 / 10000 * 4 ^ 32"
  shows "\<exists>coeffs. lms_coeffs sigma (lms_order i) i = Inr coeffs"
  unfolding lms_coeffs_def
proof (rule collect_all_Inr)
  fix c assume "c \<in> set [0 ..< lms_order i]"
  then have c: "c < lms_order i" by simp
  have "lms_order i \<le> 4" "lms_order i \<le> i + 1" by (simp_all add: lms_order_def)
  then show "\<exists>v. lms_coeff sigma (lms_order i) i c = Inr v"
    using c len geo q B by (rule lms_coeff_geometric)
qed

section \<open>The run schedule\<close>

lemma run_schedule_one_step: "run_schedule log_sigma_vec (Suc 0) = Inl Non_finite"
  by (simp add: run_schedule_def schedule_delta_def t_to_sigma_def)

lemma run_schedule_no_step: "run_schedule log_sigma_vec 0 = Inr [0]"
  by (simp add: run_schedule_def)

lemma schedule_delta_eq:
  assumes "2 \<le> steps" "steps < 2 ^ 64"
  shows "schedule_delta steps = Some (- 999 / real (steps - 1))"
proof -
  obtain k where k: "steps = Suc k" using assms(1) by (cases steps) simp_all
  have "steps + 2 ^ 64 - 1 = k + 2 ^ 64" unfolding k by simp
  then have "(steps + 2 ^ 64 - 1) mod 2 ^ 64 = (k + 2 ^ 64) mod (2 ^ 64 :: nat)" by (simp only:)
  also have "\<dots> = k mod 2 ^ 64" by (rule mod_add_self2)
  also have "\<dots> = k" using assms(2) unfolding k by (intro mod_less) simp
  finally have "(steps + 2 ^ 64 - 1) mod 2 ^ 64 = steps - 1" unfolding k by simp
  moreover have "steps \<noteq> 1" using assms(1) by simp
  ultimately show ?thesis unfolding schedule_delta_def by (simp only: if_False)
qed

lemma schedule_time_range:
  assumes "2 \<le> steps" "i < steps"
  shows "0 \<le> 999 + real i * (- 999 / real (steps - 1))"
    and "999 + real i * (- 999 / real (steps - 1)) \<le> 999"
proof -
  have r: "0 \<le> real i / real (steps - 1)" "real i / real (steps - 1) \<le> 1"
    using fraction_unit[OF assms(2,1)] by simp_all
  have eq: "999 + real i * (- 999 / real (steps - 1)) = 999 * (1 - real i / real (steps - 1))"
    by (simp add: algebra_simps)
  show "0 \<le> 999 + real i * (- 999 / real (steps - 1))" unfolding eq using r by simp
  show "999 + real i * (- 999 / real (steps - 1)) \<le> 999" unfolding eq using r by simp
qed

lemma schedule_time_decreasing:
  assumes "2 \<le> steps" "i < j"
  shows "999 + real j * (- 999 / real (steps - 1)) < 999 + real i * (- 999 / real (steps - 1))"
proof -
  have "0 < real (steps - 1)" using assms(1) by simp
  then have "- 999 / real (steps - 1) < 0" by (simp add: divide_neg_pos)
  moreover have "real i < real j" using assms(2) by simp
  ultimately have "real j * (- 999 / real (steps - 1)) < real i * (- 999 / real (steps - 1))"
    by (rule mult_strict_right_mono_neg[rotated])
  then show ?thesis by simp
qed

lemma t_to_sigma_ok:
  assumes "0 \<le> t" "t \<le> 999" "1000 \<le> length ls" "t = 999 + real i * d"
  shows "t_to_sigma ls (Some d) i = Inr (exp (log_sigma_at ls t))"
proof -
  have f: "0 \<le> \<lfloor>t\<rfloor>" "\<lfloor>t\<rfloor> \<le> 999" using assms(1,2) by (simp_all add: floor_le_iff)
  have c: "0 \<le> \<lceil>t\<rceil>" "\<lceil>t\<rceil> \<le> 999" using assms(1,2) by (simp_all add: ceiling_le_iff le_ceiling_iff)
  have "\<lfloor>t\<rfloor> < int (length ls)" "\<lceil>t\<rceil> < int (length ls)"
    using f c assms(3) by linarith+
  then have "vec_at ls \<lfloor>t\<rfloor> = Inr (ls ! nat \<lfloor>t\<rfloor>)" "vec_at ls \<lceil>t\<rceil> = Inr (ls ! nat \<lceil>t\<rceil>)"
    using f(1) c(1) by (simp_all only: vec_at_ok)
  then show ?thesis
    unfolding t_to_sigma_def Let_def option.case assms(4)[symmetric] log_sigma_at_def
    by (simp only: sum.case)
qed

lemma log_sigma_at_floor:
  "log_sigma_at ls t
     = ls ! nat \<lfloor>t\<rfloor> + (t - of_int \<lfloor>t\<rfloor>) * (ls ! nat (\<lfloor>t\<rfloor> + 1) - ls ! nat \<lfloor>t\<rfloor>)"
proof (cases "t = of_int \<lfloor>t\<rfloor>")
  case True
  then have "t - of_int \<lfloor>t\<rfloor> = 0" by simp
  then show ?thesis unfolding log_sigma_at_def by simp
next
  case False
  then have "\<lceil>t\<rceil> = \<lfloor>t\<rfloor> + 1" by (simp add: ceiling_altdef)
  then show ?thesis unfolding log_sigma_at_def by (simp add: algebra_simps)
qed

lemma log_sigma_at_increasing:
  assumes len: "1000 \<le> length ls" and inc: "increasing (take 1000 ls)"
    and t: "0 \<le> t1" "t1 < t2" "t2 \<le> 999"
  shows "log_sigma_at ls t1 < log_sigma_at ls t2"
proof -
  define m1 where "m1 = nat \<lfloor>t1\<rfloor>"
  define m2 where "m2 = nat \<lfloor>t2\<rfloor>"
  define w1 where "w1 = t1 - of_int \<lfloor>t1\<rfloor>"
  define w2 where "w2 = t2 - of_int \<lfloor>t2\<rfloor>"
  have f1: "0 \<le> \<lfloor>t1\<rfloor>" using t by simp
  have f2: "0 \<le> \<lfloor>t2\<rfloor>" "\<lfloor>t2\<rfloor> \<le> 999" using t by (simp_all add: floor_le_iff)
  have le: "\<lfloor>t1\<rfloor> \<le> \<lfloor>t2\<rfloor>" using t(2) by (simp add: floor_mono)
  have m: "m1 \<le> m2" "m2 \<le> 999" using le f1 f2 unfolding m1_def m2_def by linarith+
  have w1: "0 \<le> w1" "w1 < 1" unfolding w1_def by linarith+
  have w2: "0 \<le> w2" "w2 < 1" unfolding w2_def by linarith+
  have n1: "nat (\<lfloor>t1\<rfloor> + 1) = Suc m1" using f1 by (simp add: m1_def nat_add_distrib)
  have n2: "nat (\<lfloor>t2\<rfloor> + 1) = Suc m2" using f2 by (simp add: m2_def nat_add_distrib)
  have v1: "log_sigma_at ls t1 = ls ! m1 + w1 * (ls ! Suc m1 - ls ! m1)"
    using log_sigma_at_floor[of ls t1] unfolding n1 by (simp add: m1_def w1_def)
  have v2: "log_sigma_at ls t2 = ls ! m2 + w2 * (ls ! Suc m2 - ls ! m2)"
    using log_sigma_at_floor[of ls t2] unfolding n2 by (simp add: m2_def w2_def)
  have r1: "t1 = real m1 + w1" using f1 by (simp add: m1_def w1_def)
  have r2: "t2 = real m2 + w2" using f2 by (simp add: m2_def w2_def)
  show ?thesis
  proof (cases "m1 = m2")
    case True
    have ww: "w1 < w2" using t(2) r1 r2 True by simp
    then have "0 < w2" using w1 by simp
    then have "real m2 < 999" using t(3) r2 by simp
    then have "Suc m2 < 1000" by simp
    then have "ls ! m2 < ls ! Suc m2"
      using increasing_neighbours[OF inc len, of m2 "Suc m2"] by simp
    then have "w1 * (ls ! Suc m2 - ls ! m2) < w2 * (ls ! Suc m2 - ls ! m2)"
      using ww by simp
    then show ?thesis unfolding v1 v2 True by simp
  next
    case False
    then have lt: "m1 < m2" using m by simp
    then have s1: "Suc m1 < 1000" using m by simp
    have d1: "ls ! m1 < ls ! Suc m1"
      using increasing_neighbours[OF inc len, of m1 "Suc m1"] s1 by simp
    have "w1 * (ls ! Suc m1 - ls ! m1) < 1 * (ls ! Suc m1 - ls ! m1)"
      using w1(2) d1 by (intro mult_strict_right_mono) simp_all
    then have a: "log_sigma_at ls t1 < ls ! Suc m1" unfolding v1 by simp
    have b: "ls ! Suc m1 \<le> ls ! m2"
    proof (cases "Suc m1 = m2")
      case True
      then show ?thesis by simp
    next
      case False
      then have "Suc m1 < m2" using lt by simp
      then show ?thesis
        using increasing_neighbours[OF inc len, of "Suc m1" m2] m by simp
    qed
    have c: "0 \<le> w2 * (ls ! Suc m2 - ls ! m2)"
    proof (cases "w2 = 0")
      case True
      then show ?thesis by simp
    next
      case False
      then have "0 < w2" using w2 by simp
      then have "real m2 < 999" using t(3) r2 by simp
      then have "Suc m2 < 1000" by simp
      then have "ls ! m2 < ls ! Suc m2"
        using increasing_neighbours[OF inc len, of m2 "Suc m2"] by simp
      then show ?thesis using w2(1) by simp
    qed
    show ?thesis using a b c unfolding v2 by linarith
  qed
qed

lemma run_schedule_eq:
  assumes "2 \<le> steps" "steps < 2 ^ 64" "1000 \<le> length ls"
  shows "run_schedule ls steps
     = Inr (map (\<lambda>i. exp (log_sigma_at ls (999 + real i * (- 999 / real (steps - 1)))))
              [0 ..< steps] @ [0])"
proof -
  have "collect (map (t_to_sigma ls (schedule_delta steps)) [0 ..< steps])
      = Inr (map (\<lambda>i. exp (log_sigma_at ls (999 + real i * (- 999 / real (steps - 1)))))
              [0 ..< steps])"
  proof (rule collect_map_Inr)
    fix i assume "i \<in> set [0 ..< steps]"
    then have i: "i < steps" by simp
    show "t_to_sigma ls (schedule_delta steps) i
        = Inr (exp (log_sigma_at ls (999 + real i * (- 999 / real (steps - 1)))))"
      unfolding schedule_delta_eq[OF assms(1,2)]
      by (rule t_to_sigma_ok[OF schedule_time_range[OF assms(1) i] assms(3) refl])
  qed
  then show ?thesis by (simp add: run_schedule_def)
qed

lemma run_schedule_decreasing:
  assumes steps: "2 \<le> steps" "steps < 2 ^ 64"
    and len: "1000 \<le> length ls" and inc: "increasing (take 1000 ls)"
  shows "\<exists>sigma. run_schedule ls steps = Inr sigma \<and> length sigma = steps + 1
           \<and> decreasing sigma \<and> sigma ! steps = 0 \<and> (\<forall>i < steps. 0 < sigma ! i)"
proof -
  define time where "time = (\<lambda>i. 999 + real i * (- 999 / real (steps - 1)))"
  define run where "run = map (\<lambda>i. exp (log_sigma_at ls (time i))) [0 ..< steps]"
  have eq: "run_schedule ls steps = Inr (run @ [0])"
    unfolding run_def time_def by (rule run_schedule_eq[OF steps len])
  have lrun: "length run = steps" by (simp add: run_def)
  have nth: "(run @ [0]) ! i = exp (log_sigma_at ls (time i))" if "i < steps" for i
    using that by (simp add: run_def nth_append)
  have last: "(run @ [0]) ! steps = 0" using lrun by (simp add: nth_append)
  have dec: "decreasing (run @ [0])"
    unfolding decreasing_def
  proof (intro allI impI)
    fix i j assume "i < j \<and> j < length (run @ [0])"
    then have ij: "i < j" "j \<le> steps" using lrun by simp_all
    then have i: "i < steps" by simp
    show "(run @ [0]) ! j < (run @ [0]) ! i"
    proof (cases "j = steps")
      case True
      then show ?thesis using last nth[OF i] by simp
    next
      case False
      then have j: "j < steps" using ij by simp
      have "time j < time i" unfolding time_def by (rule schedule_time_decreasing[OF steps(1) ij(1)])
      moreover have "0 \<le> time j" "time i \<le> 999"
        unfolding time_def using schedule_time_range[OF steps(1) j] schedule_time_range[OF steps(1) i]
        by simp_all
      ultimately have "log_sigma_at ls (time j) < log_sigma_at ls (time i)"
        using log_sigma_at_increasing[OF len inc] by simp
      then show ?thesis using nth[OF i] nth[OF j] by simp
    qed
  qed
  have pos: "\<forall>i < steps. 0 < (run @ [0]) ! i" using nth by simp
  show ?thesis using eq lrun dec last pos by (intro exI[of _ "run @ [0]"]) simp
qed

lemma diffusion_run_one_step:
  "diffusion_run log_sigma_vec unet (Suc 0) latent text iterations = Inl Non_finite"
  by (simp add: diffusion_run_def run_setup_def run_schedule_one_step)

lemma diffusion_function_one_step:
  "diffusion_function unet seed (Suc 0) latent text = Inl Non_finite"
proof -
  from default_table obtain tbl where "default_log_sigma_vec = ([], Inr tbl)" by blast
  then have "snd default_log_sigma_vec = Inr tbl" by (metis snd_conv)
  then show ?thesis by (simp add: diffusion_function_def diffusion_run_one_step)
qed

subsection \<open>The times of the schedule in \<^verbatim>\<open>float\<close> arithmetic\<close>

lemma pow2_more_values:
  "pow2 4 = 16" "pow2 5 = 32" "pow2 6 = 64" "pow2 9 = 512" "pow2 10 = 1024"
  "pow2 (- 19) = 1 / 2 ^ 19" "pow2 (- 18) = 1 / 2 ^ 18" "pow2 (- 14) = 1 / 2 ^ 14"
  "pow2 (- 13) = 1 / 2 ^ 13" "pow2 (- 37) = 1 / 2 ^ 37"
  unfolding pow2_def by simp_all

lemma float32_21: "float32 21 = Number 21"
proof -
  have "float32 21 = Number (of_int 11010048 * pow2 (4 - 23))"
    by (rule float32_near) (simp_all add: pow2_more_values)
  then show ?thesis by (simp add: pow2_more_values)
qed

lemma float32_delta_22: "float32 (- 999 / 21) = Number (- 12470565 / 262144)"
proof -
  have "float32 (- 999 / 21) = Number (of_int (- 12470565) * pow2 (5 - 23))"
    by (rule float32_near) (simp_all add: pow2_more_values)
  then show ?thesis by (simp add: pow2_more_values)
qed

lemma float32_last_product:
  "float32 (21 * (- 12470565 / 262144)) = Number (- 16367617 / 16384)"
proof -
  have "float32 (21 * (- 12470565 / 262144)) = Number (of_int (- 16367617) * pow2 (9 - 23))"
    by (rule float32_near) (simp_all add: pow2_more_values)
  then show ?thesis by (simp add: pow2_more_values)
qed

lemma float32_last_sum:
  "float32 (999 + - 16367617 / 16384) = Number (- 1 / 16384)"
proof -
  have "float32 (999 + - 16367617 / 16384) = Number (of_int (- 8388608) * pow2 (- 14 - 23))"
    by (rule float32_near) (simp_all add: pow2_more_values)
  then show ?thesis by (simp add: pow2_more_values)
qed

lemma float32_last_time_of_22_steps:
  "schedule_time_rounded float32 22 21 = Number (- 1 / 16384)"
proof -
  have m: "real (((22::nat) + 2 ^ 64 - 1) mod 2 ^ 64) = 21" "real 21 = 21" by simp_all
  have d: "schedule_delta_rounded float32 22 = Number (- 12470565 / 262144)"
    unfolding schedule_delta_rounded_def m float32_21 using float32_delta_22 by simp
  show ?thesis
    unfolding schedule_time_rounded_def d m float32_21
    using float32_last_product float32_last_sum by simp
qed

lemma exact_last_time_of_22_steps:
  "schedule_time_rounded exact 22 21 = Number 0"
  by (simp add: schedule_time_rounded_def schedule_delta_rounded_def exact_def)

lemma float32_schedule_reads_before_table:
  "read_low_idx log_sigma_vec (schedule_time_rounded float32 22 21) = Inl Out_of_bounds"
proof -
  have "\<lfloor>- 1 / 16384 :: real\<rfloor> = - 1" by (rule floor_unique) simp_all
  then show ?thesis
    unfolding float32_last_time_of_22_steps read_low_idx_def by (simp add: vec_at_def)
qed

text \<open>
  Claim C2. The run schedule should have \<open>steps + 1\<close> entries, fall strictly and end
  in 0 for every \<open>steps \<ge> 1\<close>, with no division by zero at \<open>steps = 1\<close>. For one step
  the code does not do this: \<^verbatim>\<open>-999.0f / (steps - 1)\<close> divides by zero, \<open>delta\<close> is not a
  finite number, and no schedule comes out, whatever the table. From two steps on the
  code does it in exact arithmetic (\<open>run_schedule_decreasing\<close> above, on every strictly
  increasing table of 1000 entries). In \<^verbatim>\<open>float\<close> arithmetic it does not do it for every
  such step count: for 22 steps the last time rounds to \<open>-2^-14\<close> and the table is read
  at the index \<open>-1\<close> (\<open>float32_schedule_reads_before_table\<close> above).
\<close>

theorem C2_one_step_divides_by_zero:
  "schedule_delta 1 = None \<and> run_schedule log_sigma_vec 1 = Inl Non_finite"
  using run_schedule_one_step[of log_sigma_vec] by (simp add: schedule_delta_def)

section \<open>The sampling loop\<close>

text \<open>
  Claim C4. One step from an all-zero latent of shape \<open>[1, 4, 8, 8]\<close>, with a network
  that predicts all zeros, should return the all-zero latent. The code returns no
  latent at all: with \<open>steps = 1\<close> the run schedule is not built (the division by zero
  of claim C2), and the loop is never reached.
\<close>

theorem C4_one_step_run_fails:
  "diffusion_function (\<lambda>t x e. Inr \<lparr>shape = [2, 4, 8, 8], data = replicate 512 0\<rparr>) 42 1
     \<lparr>shape = [1, 4, 8, 8], data = replicate 256 0\<rparr>
     \<lparr>shape = [2, 77, 768], data = replicate 118272 0\<rparr> = Inl Non_finite"
  using diffusion_function_one_step by simp

subsection \<open>The history between the iterations\<close>

lemma diffusion_step_Inr:
  assumes "diffusion_step unet ls sigma shp latent text i st = Inr st'"
  obtains sigma_i model_input timestemp noise d coeffs where
    "vec_at sigma (int i) = Inr sigma_i"
    "latent_model_input shp (latent_vector_1d_new st) sigma_i = Inr model_input"
    "sigma_to_timestemp ls sigma_i = Inr timestemp"
    "unet_infer_function unet timestemp model_input text = Inr noise"
    "derivative_vec_1d latent sigma_i noise = Inr d"
    "lms_coeffs sigma (lms_order i) i = Inr coeffs"
    "derivative_list st' = push_derivative (derivative_list st) d"
  using assms unfolding diffusion_step_def diffusion_step_push_def diffusion_step_rest_def
    push_derivative_def Let_def
  by (auto split: sum.splits)

lemma length_push_derivative:
  "length (push_derivative ds d) = (if 4 < length ds + 1 then length ds else length ds + 1)"
  by (simp add: push_derivative_def push_back_def keep_within_def)

lemma diffusion_step_history:
  assumes "diffusion_step unet ls sigma shp latent text i st = Inr st'"
    and "length (derivative_list st) = min i 4"
  shows "length (derivative_list st') = min (Suc i) 4"
proof -
  from assms(1) obtain d where "derivative_list st' = push_derivative (derivative_list st) d"
    by (rule diffusion_step_Inr)
  then show ?thesis using assms(2) by (simp add: length_push_derivative min_def)
qed

lemma diffusion_loop_append:
  "diffusion_loop step (xs @ ys) st
     = (case diffusion_loop step xs st of Inl e \<Rightarrow> Inl e | Inr st1 \<Rightarrow> diffusion_loop step ys st1)"
  by (induction xs arbitrary: st) (simp_all split: sum.splits)

lemma diffusion_loop_invariant:
  assumes "diffusion_loop step [0 ..< n] st = Inr st'"
    and "I 0 st"
    and "\<And>i s s'. i < n \<Longrightarrow> I i s \<Longrightarrow> step i s = Inr s' \<Longrightarrow> I (Suc i) s'"
  shows "I n st'"
  using assms
proof (induction n arbitrary: st')
  case 0
  then show ?case by simp
next
  case (Suc n)
  from Suc.prems(1) obtain st1 where
    st1: "diffusion_loop step [0 ..< n] st = Inr st1" and last: "step n st1 = Inr st'"
    by (auto simp: diffusion_loop_append split: sum.splits)
  have "I n st1"
    using Suc.IH[OF st1 Suc.prems(2)] Suc.prems(3) by simp
  then show ?case using Suc.prems(3)[of n st1 st'] last by simp
qed

lemma initial_state_history:
  "initial_state latent n = Inr st \<Longrightarrow> derivative_list st = []"
  by (auto simp: initial_state_def split: sum.splits)

lemma diffusion_run_history:
  assumes "diffusion_run ls unet steps latent text iterations = Inr st"
  shows "length (derivative_list st) = min (min iterations steps) 4"
proof -
  from assms obtain sigma shp st0 where
    st0: "derivative_list st0 = []"
    and loop: "diffusion_loop (diffusion_step unet ls sigma shp latent text)
                 [0 ..< min iterations steps] st0 = Inr st"
    unfolding diffusion_run_def run_setup_def
    by (auto split: sum.splits dest: initial_state_history)
  show ?thesis
  proof (rule diffusion_loop_invariant[OF loop,
        where I = "\<lambda>i s. length (derivative_list s) = min i 4"])
    show "length (derivative_list st0) = min 0 4" using st0 by simp
    show "\<And>i s s'. i < min iterations steps \<Longrightarrow> length (derivative_list s) = min i 4 \<Longrightarrow>
        diffusion_step unet ls sigma shp latent text i s = Inr s' \<Longrightarrow>
        length (derivative_list s') = min (Suc i) 4"
      by (rule diffusion_step_history)
  qed
qed

lemma lms_coeffs_length:
  "lms_coeffs sigma order i = Inr coeffs \<Longrightarrow> length coeffs = order"
  by (auto simp: lms_coeffs_def dest: collect_Inr_length)

subsection \<open>The derivative is the guided noise\<close>

lemma derivative_element_eq:
  "sigma_i \<noteq> 0 \<Longrightarrow> derivative_element l sigma_i p = Inr p"
  by (simp add: derivative_element_def)

lemma derivative_vec_1d_eq:
  assumes "sigma_i \<noteq> 0"
    and "get_size latent \<le> length (data latent)"
    and "get_size latent \<le> length (data noise_pred)"
  shows "derivative_vec_1d latent sigma_i noise_pred
           = Inr (take (get_size latent) (data noise_pred))"
proof -
  have "collect (map (\<lambda>j. case vec_at (data latent) (int j) of
                    Inl e \<Rightarrow> Inl e
                  | Inr l \<Rightarrow>
                      (case vec_at (data noise_pred) (int j) of
                         Inl e \<Rightarrow> Inl e
                       | Inr p \<Rightarrow> derivative_element l sigma_i p))
          [0 ..< get_size latent]) = Inr (map (\<lambda>j. data noise_pred ! j) [0 ..< get_size latent])"
    using assms by (intro collect_map_Inr) (simp add: vec_at_nat derivative_element_eq)
  moreover have "map (\<lambda>j. data noise_pred ! j) [0 ..< get_size latent] = take (get_size latent) (data noise_pred)"
    using assms(3) by (simp add: list_eq_iff_nth_eq)
  ultimately show ?thesis by (simp add: derivative_vec_1d_def)
qed

lemma derivative_element_Inr:
  "derivative_element l s p = Inr v \<Longrightarrow> s \<noteq> 0 \<and> v = p"
  by (auto simp: derivative_element_def Let_def split: if_splits)

lemma vec_at_Inr: "vec_at xs i = Inr v \<Longrightarrow> 0 \<le> i \<and> i < int (length xs) \<and> v = xs ! nat i"
  by (auto simp: vec_at_def split: if_splits)

lemma derivative_vec_1d_Inr:
  assumes "derivative_vec_1d latent s noise = Inr d"
  shows "d = take (get_size latent) (data noise)"
    and "get_size latent \<le> length (data noise)"
    and "0 < get_size latent \<Longrightarrow> s \<noteq> 0"
proof -
  let ?f = "\<lambda>j. case vec_at (data latent) (int j) of
                    Inl e \<Rightarrow> Inl e
                  | Inr l \<Rightarrow>
                      (case vec_at (data noise) (int j) of
                         Inl e \<Rightarrow> Inl e
                       | Inr p \<Rightarrow> derivative_element l s p)"
  have c: "collect (map ?f [0 ..< get_size latent]) = Inr d"
    using assms by (simp add: derivative_vec_1d_def)
  have len: "length d = get_size latent" using collect_Inr_length[OF c] by simp
  have elt: "j < length (data noise) \<and> d ! j = data noise ! j \<and> s \<noteq> 0"
    if "j < get_size latent" for j
  proof -
    have "?f j = Inr (d ! j)" using c that by (rule collect_upt_Inr_nth)
    then obtain l p where "vec_at (data noise) (int j) = Inr p"
      "derivative_element l s p = Inr (d ! j)"
      by (auto split: sum.splits)
    then show ?thesis using vec_at_Inr[of "data noise" "int j" p] derivative_element_Inr by auto
  qed
  show le: "get_size latent \<le> length (data noise)"
  proof (cases "get_size latent")
    case 0
    then show ?thesis by simp
  next
    case (Suc m)
    then show ?thesis using elt[of m] by simp
  qed
  show "d = take (get_size latent) (data noise)"
    using len le elt by (simp add: list_eq_iff_nth_eq)
  show "0 < get_size latent \<Longrightarrow> s \<noteq> 0" using elt[of 0] by simp
qed

text \<open>
  Claim C9. In exact arithmetic the derivative of a step is the guided noise
  prediction, element by element: \<open>(l - (l - sigma * g)) / sigma = g\<close> for every
  latent value \<open>l\<close> and every \<open>sigma \<noteq> 0\<close>, so it does not matter that the code takes
  \<open>l\<close> from the initial latent and not from the evolving one. Every step that returns
  has pushed the first \<open>get_size latent\<close> elements of its guided noise prediction into
  the history.
\<close>

theorem C9_derivative_is_guided_noise:
  assumes "diffusion_step unet_compiled_model log_sigma_vec sigma latent_model_input_shape
             latent_vector_1d text_embeddings i st = Inr st'"
  shows "(\<forall>l s g. s \<noteq> 0 \<longrightarrow> derivative_element l s g = Inr g)
       \<and> (\<exists>sigma_i model_input timestemp noise_pred_1d.
             vec_at sigma (int i) = Inr sigma_i
           \<and> latent_model_input latent_model_input_shape (latent_vector_1d_new st) sigma_i
               = Inr model_input
           \<and> sigma_to_timestemp log_sigma_vec sigma_i = Inr timestemp
           \<and> unet_infer_function unet_compiled_model timestemp model_input text_embeddings
               = Inr noise_pred_1d
           \<and> get_size latent_vector_1d \<le> length (data noise_pred_1d)
           \<and> derivative_list st'
               = push_derivative (derivative_list st)
                   (take (get_size latent_vector_1d) (data noise_pred_1d)))"
proof -
  from assms obtain sigma_i model_input timestemp noise d where
    s: "vec_at sigma (int i) = Inr sigma_i"
      "latent_model_input latent_model_input_shape (latent_vector_1d_new st) sigma_i
         = Inr model_input"
      "sigma_to_timestemp log_sigma_vec sigma_i = Inr timestemp"
      "unet_infer_function unet_compiled_model timestemp model_input text_embeddings = Inr noise"
      "derivative_vec_1d latent_vector_1d sigma_i noise = Inr d"
      "derivative_list st' = push_derivative (derivative_list st) d"
    by (rule diffusion_step_Inr)
  from derivative_vec_1d_Inr(1,2)[OF s(5)] have
    d: "d = take (get_size latent_vector_1d) (data noise)"
      "get_size latent_vector_1d \<le> length (data noise)" .
  have "\<forall>l s g. s \<noteq> 0 \<longrightarrow> derivative_element l s g = Inr g"
    by (simp add: derivative_element_eq)
  then show ?thesis using s(1-4,6) d by blast
qed

subsection \<open>A run of two steps\<close>

lemma trapezoidal_affine:
  assumes "\<And>x. f x = Inr ((x - u) / v)" "v \<noteq> 0" "0 < tol" "2 \<le> n"
  shows "trapezoidal f a b tol n = Inr (((a + b) / 2 - u) / v * (b - a))"
proof -
  obtain m where n: "n = Suc (Suc m)"
    using \<open>2 \<le> n\<close> by (metis Suc_le_D numeral_2_eq_2 Suc_le_mono)
  show ?thesis
    using assms(2,3) unfolding n
    by (simp add: trapezoidal_def refinement_points_def Let_def assms(1) field_simps)
qed

lemma lms_derivative_second_order:
  assumes "a \<noteq> b"
  shows "lms_derivative_function tau 2 0 [a, b, c] 1 = Inr ((tau - a) / (b - a))"
    and "lms_derivative_function tau 2 1 [a, b, c] 1 = Inr ((tau - b) / (a - b))"
  using assms
  by (simp_all add: lms_derivative_function_def vec_at_def numeral_2_eq_2)

lemma lms_coeffs_second_order:
  assumes "a \<noteq> b"
  shows "\<exists>c0 c1. lms_coeffs [a, b, c] 2 1 = Inr [c0, c1]"
proof -
  have ba: "b - a \<noteq> 0" "a - b \<noteq> 0" using assms by simp_all
  have "\<exists>c0. lms_coeff [a, b, c] 2 1 0 = Inr c0"
    unfolding lms_coeff_def
    using trapezoidal_affine[of "\<lambda>tau. lms_derivative_function tau 2 0 [a, b, c] 1"
        a "b - a" "1 / 10000" 100 b c, OF lms_derivative_second_order(1)[OF assms] ba(1)]
    by (simp add: vec_at_def)
  moreover have "\<exists>c1. lms_coeff [a, b, c] 2 1 1 = Inr c1"
    unfolding lms_coeff_def
    using trapezoidal_affine[of "\<lambda>tau. lms_derivative_function tau 2 1 [a, b, c] 1"
        b "a - b" "1 / 10000" 100 b c, OF lms_derivative_second_order(2)[OF assms] ba(2)]
    by (simp add: vec_at_def)
  ultimately show ?thesis
    by (auto simp: lms_coeffs_def numeral_2_eq_2)
qed

lemma run_schedule_two_steps:
  assumes "1000 \<le> length ls"
  shows "run_schedule ls 2 = Inr [exp (ls ! 999), exp (ls ! 0), 0]"
proof -
  have v: "log_sigma_at ls 999 = ls ! 999" "log_sigma_at ls 0 = ls ! 0"
    by (simp_all add: log_sigma_at_def)
  have u: "[0 ..< 2] = [0, Suc 0]" by (simp add: numeral_2_eq_2)
  have "(2::nat) \<le> 2" "(2::nat) < 2 ^ 64" by simp_all
  from run_schedule_eq[OF this assms] show ?thesis
    unfolding u by (simp add: v)
qed

lemma example_noise:
  "unet_infer_function (\<lambda>t x e. Inr \<lparr>shape = [2, Suc 0], data = [1, 2]\<rparr>) t m e
      = Inr \<lparr>shape = [1, 1], data = [17 / 2]\<rparr>"
  by (simp add: unet_infer_function_def set_batch_def vec_at_def Let_def guidance_scale_def)

lemma example_derivative:
  assumes "0 < sigma_i"
  shows "derivative_vec_1d \<lparr>shape = [Suc 0, Suc 0], data = [3]\<rparr> sigma_i
      \<lparr>shape = [Suc 0, Suc 0], data = [g]\<rparr> = Inr [g]"
  using derivative_vec_1d_eq[of sigma_i "\<lparr>shape = [1, 1], data = [3]\<rparr>"
        "\<lparr>shape = [1, 1], data = [g]\<rparr>"] assms
  by (simp add: get_size_def)

lemma example_input:
  "latent_model_input [2, Suc 0] [x] sigma_i
      = Inr \<lparr>shape = [2, 1], data = [x * (1 / sqrt (sigma_i * sigma_i + 1)),
                                       x * (1 / sqrt (sigma_i * sigma_i + 1))]\<rparr>"
  by (simp add: latent_model_input_def Let_def)

lemma example_first_step:
  assumes len: "1000 \<le> length ls"
  shows "\<exists>y. diffusion_step (\<lambda>t x e. Inr \<lparr>shape = [2, 1], data = [1, 2]\<rparr>) ls
            [exp (ls ! 999), exp (ls ! 0), 0] [2, 1]
            \<lparr>shape = [1, 1], data = [3]\<rparr> \<lparr>shape = [2, 1], data = [0, 0]\<rparr> 0
            \<lparr>latent_vector_1d_new = [x], derivative_list = []\<rparr>
          = Inr \<lparr>latent_vector_1d_new = [y], derivative_list = [[17 / 2]]\<rparr>"
proof -
  let ?sigma = "[exp (ls ! 999), exp (ls ! 0), 0]"
  obtain t where t: "sigma_to_timestemp ls (exp (ls ! 999)) = Inr t"
    using sigma_to_timestemp_range[OF len] by blast
  have co: "lms_coeffs ?sigma (Suc 0) 0 = Inr [exp (ls ! 0) - exp (ls ! 999)]"
    using lms_coeffs_first[of 0 ?sigma] by simp
  show ?thesis
    unfolding diffusion_step_def diffusion_step_push_def diffusion_step_rest_def
    by (simp add: example_input t example_noise example_derivative co Let_def lms_order_def
        push_back_def keep_within_def scale_derivatives_def vec_at_def derivative_sum_def
        add_to_latent_def transform_plus_def)
qed

lemma example_second_step:
  assumes len: "1000 \<le> length ls" and ab: "exp (ls ! 999) \<noteq> exp (ls ! 0)"
  shows "\<exists>y. diffusion_step (\<lambda>t x e. Inr \<lparr>shape = [2, 1], data = [1, 2]\<rparr>) ls
            [exp (ls ! 999), exp (ls ! 0), 0] [2, 1]
            \<lparr>shape = [1, 1], data = [3]\<rparr> \<lparr>shape = [2, 1], data = [0, 0]\<rparr> 1
            \<lparr>latent_vector_1d_new = [x], derivative_list = [[g]]\<rparr>
          = Inr \<lparr>latent_vector_1d_new = [y], derivative_list = [[g], [17 / 2]]\<rparr>"
proof -
  let ?sigma = "[exp (ls ! 999), exp (ls ! 0), 0]"
  obtain t where t: "sigma_to_timestemp ls (exp (ls ! 0)) = Inr t"
    using sigma_to_timestemp_range[OF len] by blast
  obtain c0 c1 where co: "lms_coeffs ?sigma 2 1 = Inr [c0, c1]"
    using lms_coeffs_second_order[OF ab, of 0] by blast
  have o: "lms_order (Suc 0) = 2" by (simp add: lms_order_def)
  have co': "lms_coeffs ?sigma 2 (Suc 0) = Inr [c0, c1]" using co by simp
  have u: "[0 ..< 2] = [0, Suc 0]" by (simp add: numeral_2_eq_2)
  show ?thesis
    unfolding diffusion_step_def diffusion_step_push_def diffusion_step_rest_def
    by (simp add: example_input t example_noise example_derivative co' Let_def o u
        push_back_def keep_within_def scale_derivatives_def vec_at_def derivative_sum_def
        add_to_latent_def transform_plus_def)
qed

lemma example_run:
  assumes len: "1000 \<le> length ls" and inc: "increasing (take 1000 ls)"
  shows "\<exists>y. diffusion_run ls (\<lambda>t x e. Inr \<lparr>shape = [2, 1], data = [1, 2]\<rparr>) 2
            \<lparr>shape = [1, 1], data = [3]\<rparr> \<lparr>shape = [2, 1], data = [0, 0]\<rparr> 2
          = Inr \<lparr>latent_vector_1d_new = [y],
                 derivative_list = [[17 / 2], [17 / 2]]\<rparr>"
proof -
  let ?x = "3 * exp (ls ! 999)"
  have ab: "exp (ls ! 999) \<noteq> exp (ls ! 0)"
    using increasing_neighbours[OF inc len, of 0 999] by simp
  have init: "initial_state \<lparr>shape = [1, 1], data = [3]\<rparr> (exp (ls ! 999))
      = Inr \<lparr>latent_vector_1d_new = [?x], derivative_list = []\<rparr>"
    by (simp add: initial_state_def get_size_def vec_at_def)
  from example_first_step[OF len, of ?x] obtain y1 where
    s1: "diffusion_step (\<lambda>t x e. Inr \<lparr>shape = [2, 1], data = [1, 2]\<rparr>) ls
            [exp (ls ! 999), exp (ls ! 0), 0] [2, 1]
            \<lparr>shape = [1, 1], data = [3]\<rparr> \<lparr>shape = [2, 1], data = [0, 0]\<rparr> 0
            \<lparr>latent_vector_1d_new = [?x], derivative_list = []\<rparr>
          = Inr \<lparr>latent_vector_1d_new = [y1],
                 derivative_list = [[17 / 2]]\<rparr>"
    by blast
  from example_second_step[OF len ab, of y1 "17 / 2"] obtain y2 where
    s2: "diffusion_step (\<lambda>t x e. Inr \<lparr>shape = [2, 1], data = [1, 2]\<rparr>) ls
            [exp (ls ! 999), exp (ls ! 0), 0] [2, 1]
            \<lparr>shape = [1, 1], data = [3]\<rparr> \<lparr>shape = [2, 1], data = [0, 0]\<rparr> 1
            \<lparr>latent_vector_1d_new = [y1], derivative_list = [[17 / 2]]\<rparr>
          = Inr \<lparr>latent_vector_1d_new = [y2],
                 derivative_list = [[17 / 2], [17 / 2]]\<rparr>"
    by blast
  have u: "[0 ..< 2] = [0, 1]" by (simp add: numeral_2_eq_2)
  have mm: "min 2 2 = (2::nat)" by simp
  have v0: "vec_at [exp (ls ! 999), exp (ls ! 0), 0] 0 = Inr (exp (ls ! 999))"
    by (simp add: vec_at_def)
  have sb: "set_batch (shape \<lparr>shape = [1, 1], data = [3]\<rparr>) 2 = Inr [2, 1]"
    by (simp add: set_batch_def)
  have "diffusion_run ls (\<lambda>t x e. Inr \<lparr>shape = [2, 1], data = [1, 2]\<rparr>) 2
            \<lparr>shape = [1, 1], data = [3]\<rparr> \<lparr>shape = [2, 1], data = [0, 0]\<rparr> 2
          = Inr \<lparr>latent_vector_1d_new = [y2],
                 derivative_list = [[17 / 2], [17 / 2]]\<rparr>"
    unfolding diffusion_run_def run_setup_def run_schedule_two_steps[OF len]
    by (simp only: v0 sb init u mm s1 s2 sum.case prod.case diffusion_loop.simps)
  then show ?thesis by blast
qed

subsection \<open>A run of 5000 steps\<close>

text \<open>
  The last sigma of the default table is at most \<open>2^13\<close>: every alpha is at least
  \<open>0.988\<close>, and \<open>0.988^1000\<close> is at least \<open>2^-25\<close>. With 5000 steps the times of the
  iterations 0 to 5 lie between 998 and 999, so the first six sigmas of the run
  schedule are a geometric sequence that starts at the last sigma of the table.
\<close>

lemma cumprod_lower:
  fixes r :: real
  assumes "\<And>a. a \<in> set alphas \<Longrightarrow> r \<le> a" "0 \<le> r"
  shows "i \<le> length alphas \<Longrightarrow> r ^ i \<le> alphas_cumprod alphas i"
proof (induction i)
  case 0
  then show ?case by (simp add: alphas_cumprod_0)
next
  case (Suc i)
  then have i: "i < length alphas" by simp
  have 1: "r ^ i \<le> alphas_cumprod alphas i" using Suc by simp
  have 2: "r \<le> alphas ! i" using assms(1) i by simp
  have 3: "0 \<le> r ^ i" using assms(2) by simp
  have 4: "0 \<le> alphas_cumprod alphas i" using 1 3 by (rule order_trans[rotated])
  have "r ^ i * r \<le> alphas_cumprod alphas i * alphas ! i"
    using 1 2 4 assms(2) by (rule mult_mono)
  then show ?case unfolding alphas_cumprod_Suc[OF i] by (simp add: mult.commute)
qed

lemma power_988: "(1 / 2) ^ 25 \<le> (988 / 1000 :: real) ^ 1000"
proof -
  have "1 + real 40 * (- 12 / 1000) \<le> (1 + (- 12 / 1000 :: real)) ^ 40"
    by (rule Bernoulli_inequality) simp
  then have "(1 / 2 :: real) \<le> (988 / 1000) ^ 40" by simp
  then have "(1 / 2 :: real) ^ 25 \<le> ((988 / 1000) ^ 40) ^ 25"
    by (intro power_mono) simp_all
  then show ?thesis by (simp only: power_mult[symmetric]) simp
qed

lemma default_betas:
  "\<exists>betas. schedule_betas 1000 (85 / 100000) (12 / 1000) ''scaled_linear'' [] = ([], Inr betas)
     \<and> length betas = 1000 \<and> (\<forall>b \<in> set betas. 0 < b \<and> b \<le> 12 / 1000)"
proof -
  let ?xs = "linspace (sqrt (85 / 100000)) (sqrt (12 / 1000)) (nat 1000)"
  let ?betas = "map (\<lambda>b. b * b) ?xs"
  have le: "sqrt (85 / 100000) \<le> sqrt (12 / 1000 :: real)" by simp
  have "0 < b \<and> b \<le> 12 / 1000" if "b \<in> set ?betas" for b
  proof -
    from that obtain x where "x \<in> set ?xs" and bx: "b = x * x" by auto
    then obtain i where i: "i < nat 1000" and "x = ?xs ! i"
      unfolding in_set_conv_nth length_linspace by blast
    with bx have b: "b = ?xs ! i * ?xs ! i" by simp
    have lo: "sqrt (85 / 100000) \<le> ?xs ! i" and hi: "?xs ! i \<le> sqrt (12 / 1000)"
      using linspace_bounds[OF le i] by simp_all
    have "0 < sqrt (85 / 100000 :: real)" by simp
    then have pos: "0 < ?xs ! i" using lo by linarith
    have "?xs ! i * ?xs ! i \<le> sqrt (12 / 1000) * sqrt (12 / 1000)"
      using pos hi by (intro mult_mono) simp_all
    also have "\<dots> = 12 / 1000" by simp
    finally show ?thesis using pos unfolding b by simp
  qed
  moreover have "schedule_betas 1000 (85 / 100000) (12 / 1000) ''scaled_linear'' []
       = ([], Inr ?betas)"
    by (simp add: schedule_betas_def)
  moreover have "length ?betas = 1000" by (simp add: length_linspace)
  ultimately show ?thesis by blast
qed

lemma default_table_top:
  "\<exists>tbl. default_log_sigma_vec = ([], Inr tbl) \<and> length tbl = 1000 \<and> increasing tbl
     \<and> exp (tbl ! 999) \<le> 2 ^ 13"
proof -
  obtain betas where betas:
    "schedule_betas 1000 (85 / 100000) (12 / 1000) ''scaled_linear'' [] = ([], Inr betas)"
    "length betas = 1000" "\<forall>b \<in> set betas. 0 < b \<and> b \<le> 12 / 1000"
    using default_betas by blast
  define alphas where "alphas = map (\<lambda>b. 1 - b) betas"
  have len: "length alphas = 1000" by (simp add: alphas_def betas(2))
  have al: "\<forall>a \<in> set alphas. 0 < a \<and> a < 1" using betas(3) by (auto simp: alphas_def)
  have low: "988 / 1000 \<le> a" if "a \<in> set alphas" for a
    using betas(3) that by (auto simp: alphas_def)
  define tbl where "tbl = map (\<lambda>i. ln (sigma_of alphas (Suc i))) [0 ..< length alphas]"
  have "default_log_sigma_vec
      = ([], collect (map (log_sigma_entry alphas) [1 ..< Suc (length alphas)]))"
    unfolding default_log_sigma_vec_def alphas_def LMSDiscreteScheduler_def betas(1)
    by (simp add: Let_def del: upt_Suc)
  also have "\<dots> = ([], Inr tbl)"
    unfolding tbl_def by (simp only: table_of_alphas[OF al])
  finally have eq: "default_log_sigma_vec = ([], Inr tbl)" .
  have inc: "increasing tbl" unfolding tbl_def by (rule table_increasing[OF al])
  have ltbl: "length tbl = 1000" by (simp add: tbl_def len)
  define c where "c = alphas_cumprod alphas 1000"
  have "(988 / 1000) ^ 1000 \<le> c"
    unfolding c_def by (rule cumprod_lower) (use low len in simp_all)
  then have c25: "(1 / 2) ^ 25 \<le> c" using power_988 by (rule order_trans[rotated])
  then have cpos: "0 < c" by (rule less_le_trans[rotated]) simp
  have c1: "c < 1" unfolding c_def by (rule alphas_cumprod_lt_1[OF al]) (simp_all add: len)
  have "1 / c \<le> 1 / (1 / 2) ^ 25"
    using c25 by (intro divide_left_mono) (simp_all add: cpos)
  moreover have "1 / (1 / 2) ^ 25 = (2 :: real) ^ 25" by (simp add: power_one_over)
  ultimately have "1 / c \<le> 2 ^ 25" by (simp only:)
  moreover have "(1 - c) / c \<le> 1 / c" using cpos c1 by (simp add: divide_right_mono)
  ultimately have "(1 - c) / c \<le> (2 ^ 13) ^ 2" by simp
  then have "sqrt ((1 - c) / c) \<le> 2 ^ 13"
    by (intro real_le_lsqrt) simp_all
  then have s: "sigma_of alphas 1000 \<le> 2 ^ 13" by (simp add: sigma_of_def c_def)
  have pos: "0 < sigma_of alphas 1000" by (rule sigma_of_pos[OF al]) (simp_all add: len)
  have "tbl ! 999 = ln (sigma_of alphas 1000)" by (simp add: tbl_def len)
  then have "exp (tbl ! 999) = sigma_of alphas 1000" using pos by simp
  then show ?thesis using eq inc ltbl s by (intro exI[of _ tbl]) simp
qed

lemma log_sigma_at_top:
  assumes "j \<le> 5"
  shows "log_sigma_at ls (999 + real j * (- 999 / 4999))
           = ls ! 999 + real j * (- (999 / 4999) * (ls ! 999 - ls ! 998))"
proof (cases "j = 0")
  case True
  then show ?thesis by (simp add: log_sigma_at_floor)
next
  case False
  define t where "t = 999 + real j * (- 999 / 4999)"
  have j: "1 \<le> real j" "real j \<le> 5" using False assms by simp_all
  have "998 \<le> t" "t < 998 + 1" unfolding t_def using j by simp_all
  then have fl: "\<lfloor>t\<rfloor> = 998" by (intro floor_unique) simp_all
  have "log_sigma_at ls t = ls ! 998 + (t - 998) * (ls ! 999 - ls ! 998)"
    unfolding log_sigma_at_floor fl by simp
  also have "\<dots> = ls ! 999 + real j * (- (999 / 4999) * (ls ! 999 - ls ! 998))"
  proof -
    define r :: real where "r = 999 / 4999"
    have "t - 998 = 1 - real j * r" unfolding t_def r_def by simp
    then have "ls ! 998 + (t - 998) * (ls ! 999 - ls ! 998)
          = ls ! 998 + (1 - real j * r) * (ls ! 999 - ls ! 998)"
      by (simp only:)
    also have "\<dots> = ls ! 999 + real j * (- r * (ls ! 999 - ls ! 998))"
      by (simp add: algebra_simps)
    finally have "ls ! 998 + (t - 998) * (ls ! 999 - ls ! 998)
          = ls ! 999 + real j * (- r * (ls ! 999 - ls ! 998))" .
    then show ?thesis unfolding r_def .
  qed
  finally show ?thesis unfolding t_def .
qed

lemma schedule_5000:
  assumes len: "1000 \<le> length ls"
  shows "\<exists>sigma. run_schedule ls 5000 = Inr sigma \<and> length sigma = 5001
           \<and> (\<forall>j \<le> 5. sigma ! j
                 = exp (ls ! 999) * exp (- (999 / 4999) * (ls ! 999 - ls ! 998)) ^ j)"
proof -
  define f where "f = (\<lambda>i. exp (log_sigma_at ls (999 + real i * (- 999 / real (5000 - 1)))))"
  define sigma where "sigma = map f [0 ..< 5000] @ [0]"
  have "(5000 :: nat) < 2 ^ 64" by simp
  then have run: "run_schedule ls 5000 = Inr sigma"
    unfolding sigma_def f_def using len by (intro run_schedule_eq) simp_all
  have "sigma ! j = exp (ls ! 999) * exp (- (999 / 4999) * (ls ! 999 - ls ! 998)) ^ j"
    if j: "j \<le> 5" for j
  proof -
    have "sigma ! j = f j" using j by (simp add: sigma_def nth_append)
    also have "\<dots> = exp (ls ! 999 + real j * (- (999 / 4999) * (ls ! 999 - ls ! 998)))"
      unfolding f_def using log_sigma_at_top[OF j, of ls] by simp
    also have "\<dots> = exp (ls ! 999) * exp (- (999 / 4999) * (ls ! 999 - ls ! 998)) ^ j"
      by (simp only: exp_add exp_of_nat_mult)
    finally show ?thesis .
  qed
  moreover have "length sigma = 5001" by (simp add: sigma_def)
  ultimately show ?thesis using run by blast
qed

text \<open>
  The stages of the update return when the history holds \<open>order\<close> derivatives of the
  length of the latent; so a step returns on such a schedule, for the network whose
  output is always \<open>[1, 2]\<close>, and so do the first five steps of the run.
\<close>

lemma scale_derivatives_ok:
  assumes "order \<le> length coeffs" "order \<le> length rd"
  shows "scale_derivatives rd coeffs order
           = Inr (map (\<lambda>m. map (\<lambda>x. x * coeffs ! m) (rd ! m)) [0 ..< order] @ drop order rd)"
proof -
  have "collect (map (\<lambda>m. case vec_at coeffs (int m) of
                          Inl e \<Rightarrow> Inl e
                        | Inr coeffs_const \<Rightarrow>
                            (case vec_at rd (int m) of
                               Inl e \<Rightarrow> Inl e
                             | Inr d \<Rightarrow> Inr (map (\<lambda>x. x * coeffs_const) d)))
                [0 ..< order])
      = Inr (map (\<lambda>m. map (\<lambda>x. x * coeffs ! m) (rd ! m)) [0 ..< order])"
  proof (rule collect_map_Inr)
    fix m assume "m \<in> set [0 ..< order]"
    then have m: "m < length coeffs" "m < length rd" using assms by simp_all
    show "(case vec_at coeffs (int m) of
                          Inl e \<Rightarrow> Inl e
                        | Inr coeffs_const \<Rightarrow>
                            (case vec_at rd (int m) of
                               Inl e \<Rightarrow> Inl e
                             | Inr d \<Rightarrow> Inr (map (\<lambda>x. x * coeffs_const) d)))
        = Inr (map (\<lambda>x. x * coeffs ! m) (rd ! m))"
      by (simp add: vec_at_nat[OF m(1)] vec_at_nat[OF m(2)])
  qed
  then show ?thesis unfolding scale_derivatives_def by simp
qed

lemma scale_derivatives_lengths:
  assumes "order \<le> length coeffs" "order \<le> length rd" "\<And>d. d \<in> set rd \<Longrightarrow> length d = n"
  shows "\<exists>scaled. scale_derivatives rd coeffs order = Inr scaled \<and> length scaled = length rd
           \<and> (\<forall>d \<in> set scaled. length d = n)"
proof -
  let ?scaled = "map (\<lambda>m. map (\<lambda>x. x * coeffs ! m) (rd ! m)) [0 ..< order] @ drop order rd"
  have "length ?scaled = length rd" using assms(2) by simp
  moreover have "\<forall>d \<in> set ?scaled. length d = n"
  proof
    fix d assume "d \<in> set ?scaled"
    then consider m where "m < order" "d = map (\<lambda>x. x * coeffs ! m) (rd ! m)"
      | "d \<in> set (drop order rd)" by auto
    then show "length d = n"
    proof cases
      case 1
      then have "rd ! m \<in> set rd" using assms(2) by simp
      then show ?thesis using assms(3) 1 by simp
    next
      case 2
      then have "d \<in> set rd" by (rule in_set_dropD)
      then show ?thesis by (rule assms(3))
    qed
  qed
  ultimately show ?thesis using scale_derivatives_ok[OF assms(1,2)] by blast
qed

lemma derivative_sum_loop_ok:
  assumes "\<And>d. d \<in> set rd \<Longrightarrow> length d = n"
  shows "length summed = n \<Longrightarrow> (\<And>d. d \<in> set ds \<Longrightarrow> d + 1 < length rd) \<Longrightarrow>
         \<exists>s. derivative_sum_loop rd ds summed = Inr s \<and> length s = n"
proof (induction ds arbitrary: summed)
  case Nil
  then show ?case by simp
next
  case (Cons d ds)
  have d: "Suc d < length rd" using Cons.prems(2) by simp
  then have r: "vec_at rd (int d + 1) = Inr (rd ! Suc d)"
    using vec_at_nat[of "Suc d" rd] by (simp add: add.commute)
  have l: "length (rd ! Suc d) = n" using assms d by simp
  have t: "transform_plus summed (rd ! Suc d) = Inr (map2 (+) summed (rd ! Suc d))"
    using l Cons.prems(1) by (simp add: transform_plus_def)
  have "length (map2 (+) summed (rd ! Suc d)) = n" using l Cons.prems(1) by simp
  from Cons.IH[OF this] Cons.prems(2)
  obtain s where "derivative_sum_loop rd ds (map2 (+) summed (rd ! Suc d)) = Inr s" "length s = n"
    by auto
  then show ?case unfolding derivative_sum_loop.simps r sum.case t by blast
qed

lemma derivative_sum_ok:
  assumes "\<And>d. d \<in> set rd \<Longrightarrow> length d = n" "0 < order" "order \<le> length rd"
  shows "\<exists>s. derivative_sum rd order = Inr s \<and> length s = n"
proof -
  have pos: "0 < length rd" using assms(2,3) by (rule less_le_trans)
  then have r: "vec_at rd 0 = Inr (rd ! 0)" using vec_at_nat[of 0 rd] by simp
  have "rd ! 0 \<in> set rd" using pos by (rule nth_mem)
  then have "length (rd ! 0) = n" by (rule assms(1))
  moreover have "d + 1 < length rd" if "d \<in> set [0 ..< order - 1]" for d
    using that assms(3) by simp
  ultimately show ?thesis
    unfolding derivative_sum_def r sum.case
    using assms(1) by (intro derivative_sum_loop_ok) simp_all
qed

lemma add_to_latent_ok:
  assumes "length summed \<le> length latent"
  shows "\<exists>l. add_to_latent summed latent = Inr l \<and> length l = length latent"
  using assms by (simp add: add_to_latent_def transform_plus_def)

lemma constant_noise:
  "unet_infer_function (constant_unet \<lparr>shape = [2, Suc 0], data = [1, 2]\<rparr>) t m e
      = Inr \<lparr>shape = [1, 1], data = [17 / 2]\<rparr>"
  by (simp add: unet_infer_function_def constant_unet_def set_batch_def vec_at_def Let_def
      guidance_scale_def)

lemma example_step_push:
  assumes len: "1000 \<le> length ls" and i: "i < length sigma" and pos: "0 < sigma ! i"
  shows "diffusion_step_push (constant_unet \<lparr>shape = [2, 1], data = [1, 2]\<rparr>) ls sigma [2, 1]
            \<lparr>shape = [1, 1], data = [3]\<rparr> emb i
            \<lparr>latent_vector_1d_new = [x], derivative_list = ds\<rparr>
          = Inr \<lparr>latent_vector_1d_new = [x], derivative_list = ds @ [[17 / 2]]\<rparr>"
proof -
  obtain t where t: "sigma_to_timestemp ls (sigma ! i) = Inr t"
    using sigma_to_timestemp_range[OF len] by blast
  show ?thesis
    unfolding diffusion_step_push_def
    by (simp add: vec_at_nat[OF i] example_input t constant_noise example_derivative[OF pos]
        push_back_def)
qed

lemma example_step_rest:
  assumes coeffs: "lms_coeffs sigma (lms_order i) i = Inr coeffs"
    and ds: "length ds = min i 4 + 1" "\<And>d. d \<in> set ds \<Longrightarrow> length d = 1"
  shows "\<exists>y. diffusion_step_rest sigma i \<lparr>latent_vector_1d_new = [x], derivative_list = ds\<rparr>
          = Inr \<lparr>latent_vector_1d_new = [y], derivative_list = keep_within 4 ds\<rparr>"
proof -
  define kept where "kept = keep_within 4 ds"
  have lk: "length kept = lms_order i"
    using ds(1) by (simp add: kept_def keep_within_def lms_order_def min_def)
  have ek: "length d = 1" if "d \<in> set (rev kept)" for d
  proof -
    have "d \<in> set ds" using that ds(1)
      by (auto simp: kept_def keep_within_def dest: list.set_sel(2)[rotated] split: if_splits)
    then show ?thesis by (rule ds(2))
  qed
  have lc: "length coeffs = lms_order i" using coeffs by (rule lms_coeffs_length)
  have o: "0 < lms_order i" by (simp add: lms_order_def)
  from scale_derivatives_lengths[of "lms_order i" coeffs "rev kept" 1] lc lk ek
  obtain scaled where sc: "scale_derivatives (rev kept) coeffs (lms_order i) = Inr scaled"
    "length scaled = lms_order i" "\<And>d. d \<in> set scaled \<Longrightarrow> length d = 1"
    by auto
  from derivative_sum_ok[of scaled 1 "lms_order i"] sc o
  obtain summed where su: "derivative_sum scaled (lms_order i) = Inr summed" "length summed = 1"
    by auto
  from add_to_latent_ok[of summed "[x]"] su(2)
  obtain l where l: "add_to_latent summed [x] = Inr l" "length l = 1" by auto
  then obtain y where y: "l = [y]" by (cases l) simp_all
  have "diffusion_step_rest sigma i \<lparr>latent_vector_1d_new = [x], derivative_list = ds\<rparr>
          = Inr \<lparr>latent_vector_1d_new = [y], derivative_list = kept\<rparr>"
    unfolding diffusion_step_rest_def Let_def
    by (simp add: coeffs kept_def[symmetric] sc(1) su(1) l(1) y)
  then show ?thesis unfolding kept_def by blast
qed

lemma keep_within_replicate:
  "keep_within 4 (replicate (min i 4) v @ [v]) = replicate (min (Suc i) 4) v"
proof -
  have "replicate (min i 4) v @ [v] = replicate (Suc (min i 4)) v"
    by (simp add: replicate_append_same)
  then show ?thesis
    by (simp add: keep_within_def min_def)
qed

lemma example_step:
  fixes B q :: real
  assumes len: "1000 \<le> length ls"
    and sig: "i + 1 < length sigma" "\<And>j. j \<le> i + 1 \<Longrightarrow> sigma ! j = B * q ^ j"
    and q: "0 < q" "q < 1" and B: "0 < B" "6 * B < 1 / 10000 * 4 ^ 32"
  shows "\<exists>y. diffusion_step_push (constant_unet \<lparr>shape = [2, 1], data = [1, 2]\<rparr>) ls sigma [2, 1]
            \<lparr>shape = [1, 1], data = [3]\<rparr> emb i
            \<lparr>latent_vector_1d_new = [x], derivative_list = replicate (min i 4) [17 / 2]\<rparr>
          = Inr \<lparr>latent_vector_1d_new = [x],
                 derivative_list = replicate (min i 4) [17 / 2] @ [[17 / 2]]\<rparr>
       \<and> diffusion_step_rest sigma i
            \<lparr>latent_vector_1d_new = [x],
             derivative_list = replicate (min i 4) [17 / 2] @ [[17 / 2]]\<rparr>
          = Inr \<lparr>latent_vector_1d_new = [y],
                 derivative_list = replicate (min (Suc i) 4) [17 / 2]\<rparr>"
proof -
  have i: "i < length sigma" using sig(1) by simp
  have "sigma ! i = B * q ^ i" by (rule sig(2)) simp
  then have pos: "0 < sigma ! i" using q B by simp
  obtain coeffs where coeffs: "lms_coeffs sigma (lms_order i) i = Inr coeffs"
    using lms_coeffs_geometric[OF sig q B] by blast
  have "\<exists>y. diffusion_step_rest sigma i
            \<lparr>latent_vector_1d_new = [x],
             derivative_list = replicate (min i 4) [17 / 2] @ [[17 / 2]]\<rparr>
          = Inr \<lparr>latent_vector_1d_new = [y],
                 derivative_list = keep_within 4 (replicate (min i 4) [17 / 2] @ [[17 / 2]])\<rparr>"
    using coeffs by (rule example_step_rest) auto
  then show ?thesis
    unfolding keep_within_replicate using example_step_push[OF len i pos] by blast
qed

lemma example_loop:
  fixes B q :: real
  assumes len: "1000 \<le> length ls"
    and sig: "5 < length sigma" "\<And>j. j \<le> 5 \<Longrightarrow> sigma ! j = B * q ^ j"
    and q: "0 < q" "q < 1" and B: "0 < B" "6 * B < 1 / 10000 * 4 ^ 32"
  shows "n \<le> 5 \<Longrightarrow>
         \<exists>y. diffusion_loop
               (diffusion_step (constant_unet \<lparr>shape = [2, 1], data = [1, 2]\<rparr>) ls sigma [2, 1]
                  \<lparr>shape = [1, 1], data = [3]\<rparr> emb)
               [0 ..< n] \<lparr>latent_vector_1d_new = [x], derivative_list = []\<rparr>
          = Inr \<lparr>latent_vector_1d_new = [y], derivative_list = replicate (min n 4) [17 / 2]\<rparr>"
proof (induction n)
  case 0
  then show ?case by simp
next
  case (Suc n)
  then obtain y where y: "diffusion_loop
               (diffusion_step (constant_unet \<lparr>shape = [2, 1], data = [1, 2]\<rparr>) ls sigma [2, 1]
                  \<lparr>shape = [1, 1], data = [3]\<rparr> emb)
               [0 ..< n] \<lparr>latent_vector_1d_new = [x], derivative_list = []\<rparr>
          = Inr \<lparr>latent_vector_1d_new = [y], derivative_list = replicate (min n 4) [17 / 2]\<rparr>"
    by auto
  have n: "n + 1 < length sigma" using Suc.prems sig(1) by simp
  have geo: "sigma ! j = B * q ^ j" if "j \<le> n + 1" for j
    using that Suc.prems by (intro sig(2)) simp
  from example_step[OF len n geo q B, of emb y]
  obtain z where "diffusion_step (constant_unet \<lparr>shape = [2, 1], data = [1, 2]\<rparr>) ls sigma [2, 1]
            \<lparr>shape = [1, 1], data = [3]\<rparr> emb n
            \<lparr>latent_vector_1d_new = [y], derivative_list = replicate (min n 4) [17 / 2]\<rparr>
          = Inr \<lparr>latent_vector_1d_new = [z],
                 derivative_list = replicate (min (Suc n) 4) [17 / 2]\<rparr>"
    unfolding diffusion_step_def by auto
  then show ?case
    unfolding upt_Suc_append[OF le0] diffusion_loop_append y by simp
qed

lemma example_run_5000:
  "\<exists>tbl sigma x y z. snd default_log_sigma_vec = Inr tbl
     \<and> run_setup tbl 5000 \<lparr>shape = [1, 1], data = [3]\<rparr>
           = Inr (sigma, [2, 1], \<lparr>latent_vector_1d_new = [x], derivative_list = []\<rparr>)
     \<and> diffusion_loop
           (diffusion_step (constant_unet \<lparr>shape = [2, 1], data = [1, 2]\<rparr>) tbl sigma [2, 1]
              \<lparr>shape = [1, 1], data = [3]\<rparr> \<lparr>shape = [2, 1], data = [0, 0]\<rparr>)
           [0 ..< 4] \<lparr>latent_vector_1d_new = [x], derivative_list = []\<rparr>
         = Inr \<lparr>latent_vector_1d_new = [y], derivative_list = replicate 4 [17 / 2]\<rparr>
     \<and> diffusion_step_push (constant_unet \<lparr>shape = [2, 1], data = [1, 2]\<rparr>) tbl sigma [2, 1]
           \<lparr>shape = [1, 1], data = [3]\<rparr> \<lparr>shape = [2, 1], data = [0, 0]\<rparr> 4
           \<lparr>latent_vector_1d_new = [y], derivative_list = replicate 4 [17 / 2]\<rparr>
         = Inr \<lparr>latent_vector_1d_new = [y], derivative_list = replicate 5 [17 / 2]\<rparr>
     \<and> diffusion_step_rest sigma 4
           \<lparr>latent_vector_1d_new = [y], derivative_list = replicate 5 [17 / 2]\<rparr>
         = Inr \<lparr>latent_vector_1d_new = [z], derivative_list = replicate 4 [17 / 2]\<rparr>"
proof -
  obtain tbl where tbl: "default_log_sigma_vec = ([], Inr tbl)" "length tbl = 1000"
    "increasing tbl" "exp (tbl ! 999) \<le> 2 ^ 13"
    using default_table_top by blast
  have len: "1000 \<le> length tbl" using tbl(2) by simp
  define B where "B = exp (tbl ! 999)"
  define q where "q = exp (- (999 / 4999) * (tbl ! 999 - tbl ! 998))"
  have "tbl ! 998 < tbl ! 999" using tbl(2,3) by (simp add: increasing_def)
  then have q: "0 < q" "q < 1" unfolding q_def by simp_all
  have B: "0 < B" "6 * B < 1 / 10000 * 4 ^ 32" using tbl(4) unfolding B_def by simp_all
  obtain sigma where sigma: "run_schedule tbl 5000 = Inr sigma" "length sigma = 5001"
    "\<And>j. j \<le> 5 \<Longrightarrow> sigma ! j = B * q ^ j"
    using schedule_5000[OF len] unfolding B_def q_def by blast
  have l5: "5 < length sigma" using sigma(2) by simp
  define x where "x = 3 * sigma ! 0"
  have v0: "vec_at sigma 0 = Inr (sigma ! 0)" using vec_at_nat[of 0 sigma] sigma(2) by simp
  have start: "run_setup tbl 5000 \<lparr>shape = [1, 1], data = [3]\<rparr>
           = Inr (sigma, [2, 1], \<lparr>latent_vector_1d_new = [x], derivative_list = []\<rparr>)"
    unfolding run_setup_def sigma(1) sum.case v0
    by (simp add: set_batch_def initial_state_def get_size_def vec_at_def x_def)
  obtain y where loop: "diffusion_loop
           (diffusion_step (constant_unet \<lparr>shape = [2, 1], data = [1, 2]\<rparr>) tbl sigma [2, 1]
              \<lparr>shape = [1, 1], data = [3]\<rparr> \<lparr>shape = [2, 1], data = [0, 0]\<rparr>)
           [0 ..< 4] \<lparr>latent_vector_1d_new = [x], derivative_list = []\<rparr>
         = Inr \<lparr>latent_vector_1d_new = [y], derivative_list = replicate 4 [17 / 2]\<rparr>"
    using example_loop[OF len l5 sigma(3) q B, of 4 "\<lparr>shape = [2, 1], data = [0, 0]\<rparr>" x]
    by auto
  have i4: "4 + 1 < length sigma" using sigma(2) by simp
  have geo: "sigma ! j = B * q ^ j" if "j \<le> 4 + 1" for j using that by (intro sigma(3)) simp
  have m: "min 4 4 = (4::nat)" "min (Suc 4) 4 = (4::nat)" by simp_all
  have "replicate 4 [17 / 2 :: real] @ [[17 / 2]] = replicate (Suc 4) [17 / 2]"
    by (simp only: replicate_append_same replicate_Suc)
  also have "Suc 4 = 5" by simp
  finally have r5: "replicate 4 [17 / 2 :: real] @ [[17 / 2]] = replicate 5 [17 / 2]" .
  from example_step[OF len i4 geo q B, of "\<lparr>shape = [2, 1], data = [0, 0]\<rparr>" y]
  obtain z where
    "diffusion_step_push (constant_unet \<lparr>shape = [2, 1], data = [1, 2]\<rparr>) tbl sigma [2, 1]
           \<lparr>shape = [1, 1], data = [3]\<rparr> \<lparr>shape = [2, 1], data = [0, 0]\<rparr> 4
           \<lparr>latent_vector_1d_new = [y], derivative_list = replicate 4 [17 / 2]\<rparr>
         = Inr \<lparr>latent_vector_1d_new = [y], derivative_list = replicate 5 [17 / 2]\<rparr>"
    "diffusion_step_rest sigma 4
           \<lparr>latent_vector_1d_new = [y], derivative_list = replicate 5 [17 / 2]\<rparr>
         = Inr \<lparr>latent_vector_1d_new = [z], derivative_list = replicate 4 [17 / 2]\<rparr>"
    unfolding m r5 by blast
  moreover have "snd default_log_sigma_vec = Inr tbl" by (simp add: tbl(1))
  ultimately show ?thesis using start loop by blast
qed

subsection \<open>The history at each point of an iteration\<close>

lemma run_setup_history:
  "run_setup ls steps latent = Inr (sigma, shp, st0) \<Longrightarrow> derivative_list st0 = []"
  unfolding run_setup_def
  by (auto split: sum.splits dest: initial_state_history)

lemma diffusion_step_push_history:
  assumes "diffusion_step_push unet ls sigma shp latent emb i st = Inr pushed"
  shows "length (derivative_list pushed) = length (derivative_list st) + 1"
  using assms unfolding diffusion_step_push_def
  by (auto simp: push_back_def split: sum.splits)

lemma diffusion_step_rest_Inr:
  assumes "diffusion_step_rest sigma i pushed = Inr st'"
  obtains coeffs rev_derivative summed where
    "lms_coeffs sigma (min (i + 1) 4) i = Inr coeffs"
    "scale_derivatives (rev (derivative_list st')) coeffs (min (i + 1) 4) = Inr rev_derivative"
    "derivative_sum rev_derivative (min (i + 1) 4) = Inr summed"
    "add_to_latent summed (latent_vector_1d_new pushed) = Inr (latent_vector_1d_new st')"
    "derivative_list st' = keep_within 4 (derivative_list pushed)"
  using assms unfolding diffusion_step_rest_def Let_def lms_order_def
  by (auto split: sum.splits)

lemma loop_history:
  assumes "derivative_list st0 = []"
    and "diffusion_loop (diffusion_step unet ls sigma shp latent emb) [0 ..< i] st0 = Inr st"
  shows "length (derivative_list st) = min i 4"
  using assms(2)
proof (rule diffusion_loop_invariant[where I = "\<lambda>k s. length (derivative_list s) = min k 4"])
  show "length (derivative_list st0) = min 0 4" using assms(1) by simp
next
  fix k s s'
  assume "length (derivative_list s) = min k 4"
    and "diffusion_step unet ls sigma shp latent emb k s = Inr s'"
  then show "length (derivative_list s') = min (Suc k) 4"
    using diffusion_step_history by blast
qed

text \<open>
  Claim C8, as the code has it. The history holds \<open>min i 4\<close> entries when iteration \<open>i\<close>
  starts; one more, so five from the fifth iteration on, between the \<^verbatim>\<open>push_back\<close> of
  line 323 and the \<^verbatim>\<open>erase\<close> of line 326; and \<open>min (i + 1) 4\<close> from the erase to the end of
  the iteration. The update of iteration \<open>i\<close> is computed from \<open>min (i + 1) 4\<close>
  coefficients, the integrals of order \<open>min (i + 1) 4\<close>, and from the history after the
  erase.
\<close>

theorem C8_history_bounded_after_erase:
  assumes "run_setup log_sigma_vec steps latent_vector_1d
             = Inr (sigma, latent_model_input_shape, st0)"
    and "diffusion_loop
           (diffusion_step unet_compiled_model log_sigma_vec sigma latent_model_input_shape
              latent_vector_1d text_embeddings) [0 ..< i] st0 = Inr st"
  shows "length (derivative_list st) = min i 4
       \<and> (\<forall>pushed.
             diffusion_step_push unet_compiled_model log_sigma_vec sigma latent_model_input_shape
               latent_vector_1d text_embeddings i st = Inr pushed
           \<longrightarrow> length (derivative_list pushed) = min i 4 + 1
             \<and> (\<forall>st'. diffusion_step_rest sigma i pushed = Inr st'
                  \<longrightarrow> length (derivative_list st') = min (i + 1) 4
                    \<and> (\<exists>coeffs rev_derivative summed.
                          lms_coeffs sigma (min (i + 1) 4) i = Inr coeffs
                        \<and> length coeffs = min (i + 1) 4
                        \<and> scale_derivatives (rev (derivative_list st')) coeffs (min (i + 1) 4)
                            = Inr rev_derivative
                        \<and> derivative_sum rev_derivative (min (i + 1) 4) = Inr summed
                        \<and> add_to_latent summed (latent_vector_1d_new pushed)
                            = Inr (latent_vector_1d_new st'))))"
proof -
  have st: "length (derivative_list st) = min i 4"
    using run_setup_history[OF assms(1)] assms(2) by (rule loop_history)
  have rest: "length (derivative_list st') = min (i + 1) 4
       \<and> (\<exists>coeffs rev_derivative summed.
              lms_coeffs sigma (min (i + 1) 4) i = Inr coeffs
            \<and> length coeffs = min (i + 1) 4
            \<and> scale_derivatives (rev (derivative_list st')) coeffs (min (i + 1) 4)
                = Inr rev_derivative
            \<and> derivative_sum rev_derivative (min (i + 1) 4) = Inr summed
            \<and> add_to_latent summed (latent_vector_1d_new pushed)
                = Inr (latent_vector_1d_new st'))"
    if p: "length (derivative_list pushed) = min i 4 + 1"
      and r: "diffusion_step_rest sigma i pushed = Inr st'" for pushed st'
  proof -
    from r obtain coeffs rev_derivative summed where c:
      "lms_coeffs sigma (min (i + 1) 4) i = Inr coeffs"
      "scale_derivatives (rev (derivative_list st')) coeffs (min (i + 1) 4) = Inr rev_derivative"
      "derivative_sum rev_derivative (min (i + 1) 4) = Inr summed"
      "add_to_latent summed (latent_vector_1d_new pushed) = Inr (latent_vector_1d_new st')"
      "derivative_list st' = keep_within 4 (derivative_list pushed)"
      by (rule diffusion_step_rest_Inr)
    have "length (derivative_list st') = min (i + 1) 4"
      unfolding c(5) using p by (simp add: keep_within_def min_def)
    moreover have "length coeffs = min (i + 1) 4" using c(1) by (rule lms_coeffs_length)
    ultimately show ?thesis using c(1-4) by blast
  qed
  have push: "length (derivative_list pushed) = min i 4 + 1"
    if "diffusion_step_push unet_compiled_model log_sigma_vec sigma latent_model_input_shape
               latent_vector_1d text_embeddings i st = Inr pushed" for pushed
    using diffusion_step_push_history[OF that] st by simp
  show ?thesis using st push rest by blast
qed

text \<open>
  Claim C8, as the specification states it, fails between line 323 and line 326 of the
  fifth iteration. In a run of 5000 steps on the network whose output is always
  \<open>[1, 2]\<close>, the history right after the \<^verbatim>\<open>push_back\<close> of the iteration with index 4
  holds five derivatives, each the guided noise \<open>1 + 7.5 * (2 - 1)\<close>; the claimed bound
  there is \<open>min (4 + 1) 4 = 4\<close>.
\<close>

theorem C8_five_derivatives_after_push_back:
  "map_option (map_sum id derivative_list)
     (diffusion_function_to_push (constant_unet \<lparr>shape = [2, 1], data = [1, 2]\<rparr>) 42 5000
        \<lparr>shape = [1, 1], data = [3]\<rparr> \<lparr>shape = [2, 1], data = [0, 0]\<rparr> 4)
     = Some (Inr [[17 / 2], [17 / 2], [17 / 2], [17 / 2], [17 / 2]])"
proof -
  from example_run_5000 obtain tbl sigma x y where e:
    "snd default_log_sigma_vec = Inr tbl"
    "run_setup tbl 5000 \<lparr>shape = [1, 1], data = [3]\<rparr>
       = Inr (sigma, [2, 1], \<lparr>latent_vector_1d_new = [x], derivative_list = []\<rparr>)"
    "diffusion_loop
       (diffusion_step (constant_unet \<lparr>shape = [2, 1], data = [1, 2]\<rparr>) tbl sigma [2, 1]
          \<lparr>shape = [1, 1], data = [3]\<rparr> \<lparr>shape = [2, 1], data = [0, 0]\<rparr>)
       [0 ..< 4] \<lparr>latent_vector_1d_new = [x], derivative_list = []\<rparr>
     = Inr \<lparr>latent_vector_1d_new = [y], derivative_list = replicate 4 [17 / 2]\<rparr>"
    "diffusion_step_push (constant_unet \<lparr>shape = [2, 1], data = [1, 2]\<rparr>) tbl sigma [2, 1]
       \<lparr>shape = [1, 1], data = [3]\<rparr> \<lparr>shape = [2, 1], data = [0, 0]\<rparr> 4
       \<lparr>latent_vector_1d_new = [y], derivative_list = replicate 4 [17 / 2]\<rparr>
     = Inr \<lparr>latent_vector_1d_new = [y], derivative_list = replicate 5 [17 / 2]\<rparr>"
    by blast
  have r: "replicate 5 [17 / 2 :: real] = [[17 / 2], [17 / 2], [17 / 2], [17 / 2], [17 / 2]]"
    by (simp add: numeral_eq_Suc)
  have "diffusion_function_to_push (constant_unet \<lparr>shape = [2, 1], data = [1, 2]\<rparr>) 42 5000
        \<lparr>shape = [1, 1], data = [3]\<rparr> \<lparr>shape = [2, 1], data = [0, 0]\<rparr> 4
     = Some (Inr \<lparr>latent_vector_1d_new = [y], derivative_list = replicate 5 [17 / 2]\<rparr>)"
    unfolding diffusion_function_to_push_def diffusion_run_to_push_def e(1) sum.case e(2)
      prod.case e(3) e(4)
    by simp
  then show ?thesis unfolding r by simp
qed

theorem C8_history_bounded_after_erase_witness:
  "\<exists>tbl sigma st0 st pushed st' coeffs.
       snd default_log_sigma_vec = Inr tbl
     \<and> run_setup tbl 5000 \<lparr>shape = [1, 1], data = [3]\<rparr> = Inr (sigma, [2, 1], st0)
     \<and> diffusion_loop
         (diffusion_step (constant_unet \<lparr>shape = [2, 1], data = [1, 2]\<rparr>) tbl sigma [2, 1]
            \<lparr>shape = [1, 1], data = [3]\<rparr> \<lparr>shape = [2, 1], data = [0, 0]\<rparr>)
         [0 ..< 4] st0 = Inr st
     \<and> length (derivative_list st) = 4
     \<and> diffusion_step_push (constant_unet \<lparr>shape = [2, 1], data = [1, 2]\<rparr>) tbl sigma [2, 1]
         \<lparr>shape = [1, 1], data = [3]\<rparr> \<lparr>shape = [2, 1], data = [0, 0]\<rparr> 4 st = Inr pushed
     \<and> length (derivative_list pushed) = 5
     \<and> diffusion_step_rest sigma 4 pushed = Inr st'
     \<and> length (derivative_list st') = 4
     \<and> lms_coeffs sigma 4 4 = Inr coeffs \<and> length coeffs = 4"
proof -
  from example_run_5000 obtain tbl sigma x y z where e:
    "snd default_log_sigma_vec = Inr tbl"
    "run_setup tbl 5000 \<lparr>shape = [1, 1], data = [3]\<rparr>
       = Inr (sigma, [2, 1], \<lparr>latent_vector_1d_new = [x], derivative_list = []\<rparr>)"
    "diffusion_loop
       (diffusion_step (constant_unet \<lparr>shape = [2, 1], data = [1, 2]\<rparr>) tbl sigma [2, 1]
          \<lparr>shape = [1, 1], data = [3]\<rparr> \<lparr>shape = [2, 1], data = [0, 0]\<rparr>)
       [0 ..< 4] \<lparr>latent_vector_1d_new = [x], derivative_list = []\<rparr>
     = Inr \<lparr>latent_vector_1d_new = [y], derivative_list = replicate 4 [17 / 2]\<rparr>"
    "diffusion_step_push (constant_unet \<lparr>shape = [2, 1], data = [1, 2]\<rparr>) tbl sigma [2, 1]
       \<lparr>shape = [1, 1], data = [3]\<rparr> \<lparr>shape = [2, 1], data = [0, 0]\<rparr> 4
       \<lparr>latent_vector_1d_new = [y], derivative_list = replicate 4 [17 / 2]\<rparr>
     = Inr \<lparr>latent_vector_1d_new = [y], derivative_list = replicate 5 [17 / 2]\<rparr>"
    "diffusion_step_rest sigma 4
       \<lparr>latent_vector_1d_new = [y], derivative_list = replicate 5 [17 / 2]\<rparr>
     = Inr \<lparr>latent_vector_1d_new = [z], derivative_list = replicate 4 [17 / 2]\<rparr>"
    by blast
  note history = C8_history_bounded_after_erase[OF e(2) e(3)]
  from history have before: "length (derivative_list \<lparr>latent_vector_1d_new = [y],
      derivative_list = replicate 4 [17 / 2 :: real]\<rparr>) = min 4 4"
    by (rule conjunct1)
  from history e(4) have pushed: "length (derivative_list \<lparr>latent_vector_1d_new = [y],
      derivative_list = replicate 5 [17 / 2 :: real]\<rparr>) = min 4 4 + 1"
    by blast
  from history e(4) e(5) have after: "length (derivative_list \<lparr>latent_vector_1d_new = [z],
      derivative_list = replicate 4 [17 / 2 :: real]\<rparr>) = min (4 + 1) 4"
    by blast
  from history e(4) e(5) obtain coeffs where
    "lms_coeffs sigma (min (4 + 1) 4) 4 = Inr coeffs" "length coeffs = min (4 + 1) 4"
    by blast
  then have coeffs: "lms_coeffs sigma 4 4 = Inr coeffs" "length coeffs = 4" by simp_all
  have "length (derivative_list \<lparr>latent_vector_1d_new = [y],
                                   derivative_list = replicate 4 [17 / 2 :: real]\<rparr>) = 4
      \<and> length (derivative_list \<lparr>latent_vector_1d_new = [y],
                                   derivative_list = replicate 5 [17 / 2 :: real]\<rparr>) = 5
      \<and> length (derivative_list \<lparr>latent_vector_1d_new = [z],
                                   derivative_list = replicate 4 [17 / 2 :: real]\<rparr>) = 4
      \<and> (\<exists>coeffs. lms_coeffs sigma 4 4 = Inr coeffs \<and> length coeffs = 4)"
    using before pushed after coeffs by simp
  then show ?thesis using e by blast
qed

theorem C9_derivative_is_guided_noise_witness:
  "\<exists>tbl st' sigma_i model_input timestemp noise_pred_1d.
       snd default_log_sigma_vec = Inr tbl
     \<and> diffusion_step (\<lambda>t x e. Inr \<lparr>shape = [2, 1], data = [1, 2]\<rparr>) tbl
          [exp (tbl ! 999), exp (tbl ! 0), 0] [2, 1]
          \<lparr>shape = [1, 1], data = [3]\<rparr> \<lparr>shape = [2, 1], data = [0, 0]\<rparr> 0
          \<lparr>latent_vector_1d_new = [3 * exp (tbl ! 999)], derivative_list = []\<rparr> = Inr st'
     \<and> unet_infer_function (\<lambda>t x e. Inr \<lparr>shape = [2, 1], data = [1, 2]\<rparr>) timestemp
          model_input \<lparr>shape = [2, 1], data = [0, 0]\<rparr> = Inr noise_pred_1d
     \<and> derivative_list st'
          = push_derivative [] (take (get_size \<lparr>shape = [1, 1], data = [3]\<rparr>) (data noise_pred_1d))"
proof -
  from default_table obtain tbl where
    t: "default_log_sigma_vec = ([], Inr tbl)" "length tbl = 1000"
    by blast
  have snd: "snd default_log_sigma_vec = Inr tbl" by (simp add: t(1))
  have len: "1000 \<le> length tbl" using t(2) by simp
  from example_first_step[OF len, of "3 * exp (tbl ! 999)"] obtain st' where
    step: "diffusion_step (\<lambda>t x e. Inr \<lparr>shape = [2, 1], data = [1, 2]\<rparr>) tbl
          [exp (tbl ! 999), exp (tbl ! 0), 0] [2, 1]
          \<lparr>shape = [1, 1], data = [3]\<rparr> \<lparr>shape = [2, 1], data = [0, 0]\<rparr> 0
          \<lparr>latent_vector_1d_new = [3 * exp (tbl ! 999)], derivative_list = []\<rparr> = Inr st'"
    by blast
  from C9_derivative_is_guided_noise[OF step] snd step show ?thesis
    by (simp only: loop_state.simps) blast
qed

end
